theory Spec2Isabelle
  imports Complex_Main "HOL-Library.Word"
begin

section \<open>Data model\<close>

text \<open>
  JavaScript strings are sequences of UTF-16 code units. String literals of the source
  are written with \<open>ascii\<close>, which maps each character to its code unit.
\<close>

type_synonym jsstring = "16 word list"

definition ascii :: "string \<Rightarrow> jsstring" where
  "ascii s = map (\<lambda>c. of_nat (of_char c)) s"

text \<open>A string is truthy when it is not empty.\<close>

definition truthy :: "jsstring \<Rightarrow> bool" where
  "truthy s = (s \<noteq> [])"

text \<open>
  A segment row \<open>{id, label, maxLen, start, end, color}\<close>. Times are seconds; the
  finite values of JavaScript numbers are modelled as real numbers.
\<close>

record row =
  r_id :: jsstring
  r_label :: jsstring
  r_maxLen :: real
  r_start :: real
  r_end :: real
  r_color :: jsstring

definition COLORS :: "jsstring list" where
  "COLORS = map ascii
     [''#22c55e55'', ''#3b82f655'', ''#ef444455'', ''#eab30855'',
      ''#a855f755'', ''#06b6d455'', ''#f9731655'']"

section \<open>Colour assignment\<close>

text \<open>
  The expression \<open>COLORS.find(c => !used.has(c)) || COLORS[0]\<close>, which both
  \<open>pickColor\<close> and \<open>ensureUniqueColors\<close> evaluate on their set of used colours.
\<close>

definition firstUnused :: "jsstring list \<Rightarrow> jsstring" where
  "firstUnused used =
     (case find (\<lambda>c. c \<notin> set used) COLORS of
        Some c \<Rightarrow> if truthy c then c else COLORS ! 0
      | None \<Rightarrow> COLORS ! 0)"

definition pickColor :: "row list \<Rightarrow> jsstring" where
  "pickColor rowsArr = (let used = map r_color rowsArr in firstUnused used)"

text \<open>
  \<open>ensureUniqueColors\<close> maps over the rows while it grows the set \<open>used\<close>; the
  accumulator of \<open>ensureFrom\<close> is that set.
\<close>

fun ensureFrom :: "jsstring list \<Rightarrow> row list \<Rightarrow> row list" where
  "ensureFrom used [] = []"
| "ensureFrom used (r # rs) =
     (let c0 = (if truthy (r_color r) \<and> r_color r \<in> set COLORS \<and> r_color r \<notin> set used
                then Some (r_color r) else None);
          c = (case c0 of Some c \<Rightarrow> c | None \<Rightarrow> firstUnused used)
      in r\<lparr>r_color := c\<rparr> # ensureFrom (c # used) rs)"

definition ensureUniqueColors :: "row list \<Rightarrow> row list" where
  "ensureUniqueColors rowsArr = ensureFrom [] rowsArr"

section \<open>File names and cache keys\<close>

record jsfile =
  f_webkitRelativePath :: jsstring
  f_name :: jsstring
  f_size :: nat
  f_lastModified :: nat

text \<open>Decimal digits of a number, as template literals print \<open>size\<close> and \<open>lastModified\<close>.\<close>

fun showNat :: "nat \<Rightarrow> jsstring" where
  "showNat n =
     (if n < 10 then [of_nat (48 + n)]
      else showNat (n div 10) @ [of_nat (48 + n mod 10)])"

declare showNat.simps [simp del]

definition fileKey :: "jsfile option \<Rightarrow> jsstring" where
  "fileKey fo =
     (case fo of
        None \<Rightarrow> []
      | Some f \<Rightarrow>
          (if truthy (f_webkitRelativePath f) then f_webkitRelativePath f else f_name f)
          @ ascii ''|'' @ showNat (f_size f) @ ascii ''|'' @ showNat (f_lastModified f))"

definition LS_PREFIX :: jsstring where
  "LS_PREFIX = ascii ''wavseg:rows:''"

text \<open>\<open>lastIndexOf\<close> gives \<open>-1\<close> when the character does not occur.\<close>

definition lastIndexOf :: "jsstring \<Rightarrow> 16 word \<Rightarrow> int" where
  "lastIndexOf s c =
     (let hits = filter (\<lambda>i. s ! i = c) [0..<length s]
      in if hits = [] then - 1 else int (last hits))"

definition baseName :: "jsstring \<Rightarrow> jsstring" where
  "baseName name =
     (let i = lastIndexOf name 0x2E in if i > 0 then take (nat i) name else name)"

text \<open>
  The character class \<open>\s\<close> of a regular expression without the unicode flag: the
  white space and line terminator code units of ECMAScript.
\<close>

definition isWhiteSpace :: "16 word \<Rightarrow> bool" where
  "isWhiteSpace c =
     (c \<in> {0x09, 0x0A, 0x0B, 0x0C, 0x0D, 0x20, 0xA0, 0x1680, 0x2028, 0x2029,
            0x202F, 0x205F, 0x3000, 0xFEFF}
      \<or> (0x2000 \<le> c \<and> c \<le> 0x200A))"

text \<open>
  \<open>label.replace(/\s+/g, "_")\<close>: scanning from the left, every longest match of
  \<open>\s+\<close> is replaced by one underscore.
\<close>

function replaceWhiteSpace :: "jsstring \<Rightarrow> jsstring" where
  "replaceWhiteSpace [] = []"
| "replaceWhiteSpace (c # cs) =
     (if isWhiteSpace c then 0x5F # replaceWhiteSpace (dropWhile isWhiteSpace cs)
      else c # replaceWhiteSpace cs)"
  by pat_completeness auto
termination
  by (relation "measure length") (auto simp: length_dropWhile_le less_Suc_eq_le)

text \<open>
  The wording of the specification, for comparison: the label is cut into its maximal
  runs of white space and of other characters, and every white space run becomes one
  underscore.
\<close>

function runs :: "('a \<Rightarrow> bool) \<Rightarrow> 'a list \<Rightarrow> 'a list list" where
  "runs P [] = []"
| "runs P (c # cs) =
     (c # takeWhile (\<lambda>x. P x = P c) cs) # runs P (dropWhile (\<lambda>x. P x = P c) cs)"
  by pat_completeness auto
termination
  by (relation "measure (\<lambda>(P, xs). length xs)")
     (auto simp: length_dropWhile_le less_Suc_eq_le)

definition specSanitizedLabel :: "jsstring \<Rightarrow> jsstring" where
  "specSanitizedLabel lbl =
     concat (map (\<lambda>run. if isWhiteSpace (hd run) then ascii ''_'' else run)
                 (runs isWhiteSpace lbl))"

section \<open>Audio buffers\<close>

text \<open>
  A decoded \<open>AudioBuffer\<close>: sample rate, number of frames and one array of samples
  per channel. Samples are 32-bit floats; their finite values are modelled as reals
  (the products with \<open>0x8000\<close> and \<open>0x7fff\<close> are exact in double precision).
\<close>

record abuf =
  ab_sampleRate :: nat
  ab_length :: nat
  ab_channels :: "real list list"

definition numberOfChannels :: "abuf \<Rightarrow> nat" where
  "numberOfChannels ab = length (ab_channels ab)"

definition getChannelData :: "abuf \<Rightarrow> nat \<Rightarrow> real list" where
  "getChannelData ab ch = ab_channels ab ! ch"

text \<open>Every channel of an \<open>AudioBuffer\<close> holds \<open>length\<close> frames.\<close>

definition wfBuffer :: "abuf \<Rightarrow> bool" where
  "wfBuffer ab = (\<forall>d \<in> set (ab_channels ab). length d = ab_length ab)"

section \<open>WAV encoder\<close>

datatype error = RangeError | NotSupportedError

definition bindE :: "error + 'a \<Rightarrow> ('a \<Rightarrow> error + 'b) \<Rightarrow> error + 'b" where
  "bindE m f = (case m of Inl e \<Rightarrow> Inl e | Inr x \<Rightarrow> f x)"

type_synonym bytes = "8 word list"

text \<open>
  The setters of \<open>DataView\<close>, little-endian where the source passes \<open>true\<close>. A write
  outside the buffer raises \<open>RangeError\<close>; the value is reduced modulo the width of
  the field.
\<close>

definition setUint8 :: "bytes \<Rightarrow> nat \<Rightarrow> nat \<Rightarrow> error + bytes" where
  "setUint8 view off v =
     (if off + 1 \<le> length view then Inr (view[off := of_nat v]) else Inl RangeError)"

definition setUint16 :: "bytes \<Rightarrow> nat \<Rightarrow> nat \<Rightarrow> error + bytes" where
  "setUint16 view off v =
     (if off + 2 \<le> length view
      then Inr (view[off := of_nat v, off + 1 := of_nat (v div 256)])
      else Inl RangeError)"

definition setUint32 :: "bytes \<Rightarrow> nat \<Rightarrow> nat \<Rightarrow> error + bytes" where
  "setUint32 view off v =
     (if off + 4 \<le> length view
      then Inr (view[off := of_nat v, off + 1 := of_nat (v div 256),
                     off + 2 := of_nat (v div 65536), off + 3 := of_nat (v div 16777216)])
      else Inl RangeError)"

text \<open>\<open>setInt16\<close> converts its argument with \<open>ToInt16\<close>, which truncates towards zero.\<close>

definition jsTruncate :: "real \<Rightarrow> int" where
  "jsTruncate x = (if x < 0 then \<lceil>x\<rceil> else \<lfloor>x\<rfloor>)"

definition setInt16 :: "bytes \<Rightarrow> nat \<Rightarrow> real \<Rightarrow> error + bytes" where
  "setInt16 view off x =
     (let n = jsTruncate x
      in if off + 2 \<le> length view
         then Inr (view[off := of_int n, off + 1 := of_int (n div 256)])
         else Inl RangeError)"

fun writeString :: "bytes \<Rightarrow> nat \<Rightarrow> jsstring \<Rightarrow> error + bytes" where
  "writeString view off [] = Inr view"
| "writeString view off (c # cs) =
     bindE (setUint8 view off (unat c)) (\<lambda>view. writeString view (off + 1) cs)"

text \<open>
  The two nested loops that fill \<open>interleaved\<close>, a zero-initialised array of
  \<open>numFrames * numChannels\<close> floats.
\<close>

definition interleave :: "abuf \<Rightarrow> real list" where
  "interleave ab =
     (let numChannels = numberOfChannels ab; numFrames = ab_length ab
      in fold (\<lambda>ch interleaved.
                 let data = getChannelData ab ch
                 in fold (\<lambda>i interleaved. interleaved[i * numChannels + ch := data ! i])
                         [0..<numFrames] interleaved)
              [0..<numChannels] (replicate (numFrames * numChannels) 0))"

text \<open>The conversion loop: one sample per step, two bytes further each time.\<close>

fun writeSamples :: "bytes \<Rightarrow> nat \<Rightarrow> real list \<Rightarrow> error + bytes" where
  "writeSamples view offset [] = Inr view"
| "writeSamples view offset (x # xs) =
     (let s = max (- 1) (min 1 x)
      in bindE (setInt16 view offset (if s < 0 then s * 32768 else s * 32767))
               (\<lambda>view. writeSamples view (offset + 2) xs))"

definition audioBufferToWav :: "abuf \<Rightarrow> error + bytes" where
  "audioBufferToWav ab =
     (let numChannels = numberOfChannels ab;
          sampleRate = ab_sampleRate ab;
          interleaved = interleave ab;
          buffer = replicate (44 + length interleaved * 2) 0;
          byteRate = sampleRate * numChannels * 2
      in bindE (writeString buffer 0 (ascii ''RIFF'')) (\<lambda>view.
         bindE (setUint32 view 4 (36 + length interleaved * 2)) (\<lambda>view.
         bindE (writeString view 8 (ascii ''WAVE'')) (\<lambda>view.
         bindE (writeString view 12 (ascii ''fmt '')) (\<lambda>view.
         bindE (setUint32 view 16 16) (\<lambda>view.
         bindE (setUint16 view 20 1) (\<lambda>view.
         bindE (setUint16 view 22 numChannels) (\<lambda>view.
         bindE (setUint32 view 24 sampleRate) (\<lambda>view.
         bindE (setUint32 view 28 byteRate) (\<lambda>view.
         bindE (setUint16 view 32 (numChannels * 2)) (\<lambda>view.
         bindE (setUint16 view 34 16) (\<lambda>view.
         bindE (writeString view 36 (ascii ''data'')) (\<lambda>view.
         bindE (setUint32 view 40 (length interleaved * 2)) (\<lambda>view.
         writeSamples view 44 interleaved))))))))))))))"

text \<open>The bytes of a chunk identifier.\<close>

definition asciiBytes :: "string \<Rightarrow> bytes" where
  "asciiBytes s = map (\<lambda>c. of_nat (of_char c)) s"

text \<open>Reading a WAV file back: the getters of \<open>DataView\<close>, little-endian.\<close>

definition getUint16 :: "bytes \<Rightarrow> nat \<Rightarrow> nat" where
  "getUint16 view off = unat (view ! off) + 256 * unat (view ! (off + 1))"

definition getUint32 :: "bytes \<Rightarrow> nat \<Rightarrow> nat" where
  "getUint32 view off =
     unat (view ! off) + 256 * unat (view ! (off + 1))
     + 65536 * unat (view ! (off + 2)) + 16777216 * unat (view ! (off + 3))"

definition getInt16 :: "bytes \<Rightarrow> nat \<Rightarrow> int" where
  "getInt16 view off =
     (let u = int (getUint16 view off) in if u < 32768 then u else u - 65536)"

text \<open>
  The little-endian bytes of a 16-bit and of a 32-bit field, and the 44 bytes of the
  header in the order the encoder writes them.
\<close>

definition le16 :: "nat \<Rightarrow> bytes" where
  "le16 v = [of_nat v, of_nat (v div 256)]"

definition le32 :: "nat \<Rightarrow> bytes" where
  "le32 v = [of_nat v, of_nat (v div 256), of_nat (v div 65536), of_nat (v div 16777216)]"

definition wavHeader :: "nat \<Rightarrow> nat \<Rightarrow> nat \<Rightarrow> bytes" where
  "wavHeader numChannels sampleRate dataBytes =
     asciiBytes ''RIFF'' @ le32 (36 + dataBytes) @ asciiBytes ''WAVE''
     @ asciiBytes ''fmt '' @ le32 16 @ le16 1 @ le16 numChannels @ le32 sampleRate
     @ le32 (sampleRate * numChannels * 2) @ le16 (numChannels * 2) @ le16 16
     @ asciiBytes ''data'' @ le32 dataBytes"

text \<open>
  The sample value the specification describes: clamp to \<open>[-1, 1]\<close>, scale by 32768
  when negative and by 32767 otherwise.
\<close>

definition pcm16 :: "real \<Rightarrow> int" where
  "pcm16 x =
     (let s = max (- 1) (min 1 x)
      in jsTruncate (if s < 0 then s * 32768 else s * 32767))"

section \<open>Buffer slicer\<close>

text \<open>
  \<open>createBuffer\<close> of the audio context, which the platform provides: it allocates
  zero-filled channels, and the Web Audio API has it raise \<open>NotSupportedError\<close> when
  an argument is zero. The upper limits that an implementation puts on the arguments
  are not modelled; the channel count and the rate passed here are those of a buffer
  of the same context.
\<close>

definition createBuffer :: "nat \<Rightarrow> nat \<Rightarrow> nat \<Rightarrow> error + abuf" where
  "createBuffer nChannels len rate =
     (if nChannels = 0 \<or> len = 0 \<or> rate = 0 then Inl NotSupportedError
      else Inr \<lparr>ab_sampleRate = rate, ab_length = len,
                ab_channels = replicate nChannels (replicate len 0)\<rparr>)"

text \<open>
  \<open>subarray(begin, end)\<close> of a typed array: a negative index counts from the end,
  both indices are clamped to the array, and an empty range gives an empty array.
\<close>

definition subarray :: "'a list \<Rightarrow> int \<Rightarrow> int \<Rightarrow> 'a list" where
  "subarray xs b e =
     (let len = int (length xs);
          rb = (if b < 0 then max (len + b) 0 else min b len);
          re = (if e < 0 then max (len + e) 0 else min e len)
      in take (nat (re - rb)) (drop (nat rb) xs))"

text \<open>
  \<open>copyToChannel(source, channel, offset)\<close> copies as many frames of the source as fit
  into the channel from the offset on.
\<close>

definition copyToChannel :: "abuf \<Rightarrow> real list \<Rightarrow> nat \<Rightarrow> nat \<Rightarrow> abuf" where
  "copyToChannel out src ch bufferOffset =
     (let d = ab_channels out ! ch;
          n = min (length src) (length d - bufferOffset)
      in out\<lparr>ab_channels :=
               (ab_channels out)[ch := take bufferOffset d @ take n src @ drop (bufferOffset + n) d]\<rparr>)"

definition sliceBuffer :: "abuf \<Rightarrow> real \<Rightarrow> real \<Rightarrow> error + abuf" where
  "sliceBuffer ab startSec endSec =
     (let startFrame = max 0 \<lfloor>startSec * real (ab_sampleRate ab)\<rfloor>;
          endFrame = min \<lfloor>endSec * real (ab_sampleRate ab)\<rfloor> (int (ab_length ab));
          frames = max 0 (endFrame - startFrame)
      in bindE (createBuffer (numberOfChannels ab) (nat frames) (ab_sampleRate ab))
           (\<lambda>out. Inr (fold (\<lambda>ch out. copyToChannel out
                                   (subarray (getChannelData ab ch) startFrame endFrame) ch 0)
                            [0..<numberOfChannels ab] out)))"

text \<open>
  The frame indices as the specification words them: both clamped to the buffer.
\<close>

definition specFrameIndex :: "abuf \<Rightarrow> real \<Rightarrow> int" where
  "specFrameIndex ab sec =
     max 0 (min (int (ab_length ab)) \<lfloor>sec * real (ab_sampleRate ab)\<rfloor>)"

section \<open>Application state\<close>

definition DEFAULT_MAX_LEN :: real where "DEFAULT_MAX_LEN = 1"
definition MIN_LEN :: real where "MIN_LEN = 1 / 2"
definition MAX_LEN :: real where "MAX_LEN = 5"
definition MAX_REGIONS :: nat where "MAX_REGIONS = 7"

text \<open>A region of the waveform view, and the player that owns the regions.\<close>

record region =
  reg_id :: jsstring
  reg_start :: real
  reg_end :: real
  reg_color :: jsstring

record player =
  ws_duration :: real
  ws_regions :: "region list"

datatype notice = MaxRegionsNotice

text \<open>
  The state of the component: its React state, its refs, the storage of the browser,
  and what the user has been shown (alerts, downloads). \<open>player\<close> stands for
  \<open>wsRef.current\<close> and \<open>regionsRef.current\<close>, which the mount effect sets together;
  \<open>rowsShadowRef.current\<close> mirrors \<open>rows\<close> after every render and is read as \<open>rows\<close>.
  The cache keeps segment lists; their JSON text in \<open>localStorage\<close> is not modelled.
\<close>

record state =
  files :: "jsfile list"
  current :: nat
  audioBuffer :: "abuf option"
  duration :: real
  rows :: "row list"
  player :: "player option"
  seedOnReady :: bool
  isRestoring :: bool
  pendingRows :: "row list option"
  fileRows :: "jsstring \<rightharpoonup> row list"
  localStorage :: "jsstring \<rightharpoonup> row list"
  storageFull :: bool
  alerts :: "notice list"
  downloads :: "(jsstring \<times> bytes) list"

definition initialState :: "(jsstring \<rightharpoonup> row list) \<Rightarrow> state" where
  "initialState ls =
     \<lparr>files = [], current = 0, audioBuffer = None, duration = 0, rows = [],
      player = None, seedOnReady = False, isRestoring = False, pendingRows = None,
      fileRows = Map.empty, localStorage = ls, storageFull = False, alerts = [],
      downloads = []\<rparr>"

definition currentFile :: "state \<Rightarrow> jsfile option" where
  "currentFile s = (if current s < length (files s) then Some (files s ! current s) else None)"

definition canAddRegion :: "state \<Rightarrow> bool" where
  "canAddRegion s = (currentFile s \<noteq> None \<and> duration s > 0)"

subsection \<open>Cache\<close>

definition loadRowsLS :: "jsstring \<Rightarrow> state \<Rightarrow> row list option" where
  "loadRowsLS key s = localStorage s (LS_PREFIX @ key)"

text \<open>A write that the storage refuses is logged and dropped.\<close>

definition saveRowsLS :: "jsstring \<Rightarrow> row list \<Rightarrow> state \<Rightarrow> state" where
  "saveRowsLS key rs s =
     (if storageFull s then s
      else s\<lparr>localStorage := (localStorage s)(LS_PREFIX @ key \<mapsto> rs)\<rparr>)"

definition deleteRowsLS :: "jsstring \<Rightarrow> state \<Rightarrow> state" where
  "deleteRowsLS key s = s\<lparr>localStorage := (localStorage s)(LS_PREFIX @ key := None)\<rparr>"

definition persistCurrent :: "state \<Rightarrow> state" where
  "persistCurrent s =
     (case currentFile s of
        None \<Rightarrow> s
      | Some cur \<Rightarrow>
          (let key = fileKey (Some cur)
           in saveRowsLS key (rows s) (s\<lparr>fileRows := (fileRows s)(key \<mapsto> rows s)\<rparr>)))"

text \<open>The effect on \<open>[rows, current, files]\<close>, which is skipped while restoring.\<close>

definition persistEffect :: "state \<Rightarrow> state" where
  "persistEffect s = (if isRestoring s then s else persistCurrent s)"

subsection \<open>Regions\<close>

definition clearAllRegions :: "state \<Rightarrow> state" where
  "clearAllRegions s =
     (case player s of
        None \<Rightarrow> s
      | Some p \<Rightarrow> s\<lparr>player := Some (p\<lparr>ws_regions := []\<rparr>), rows := []\<rparr>)"

definition addRegion :: "region \<Rightarrow> state \<Rightarrow> state" where
  "addRegion g s =
     (case player s of
        None \<Rightarrow> s
      | Some p \<Rightarrow> s\<lparr>player := Some (p\<lparr>ws_regions := ws_regions p @ [g]\<rparr>)\<rparr>)"

text \<open>The callback scheduled with \<open>requestAnimationFrame\<close> is the step \<open>animationFrame\<close>.\<close>

definition animationFrame :: "state \<Rightarrow> state" where
  "animationFrame s = s\<lparr>isRestoring := False\<rparr>"

definition renderRowsToRegions :: "row list \<Rightarrow> state \<Rightarrow> state" where
  "renderRowsToRegions rowsToDraw s =
     (let s1 = s\<lparr>isRestoring := True\<rparr>
      in case player s1 of
           None \<Rightarrow> s1
         | Some p \<Rightarrow>
             (let s2 = clearAllRegions s1;
                  normalized = take MAX_REGIONS (ensureUniqueColors rowsToDraw);
                  s3 = fold (\<lambda>r. addRegion
                              \<lparr>reg_id = r_id r, reg_start = r_start r,
                               reg_end = min (r_start r + r_maxLen r) (r_end r),
                               reg_color = r_color r\<rparr>) normalized s2
              in s3\<lparr>rows := normalized\<rparr>))"

text \<open>
  The handler of the player's \<open>ready\<close> event; \<open>d\<close> is what \<open>getDuration\<close> returns and
  \<open>newId\<close> the random identifier drawn for a default segment.
\<close>

definition ready :: "real \<Rightarrow> jsstring \<Rightarrow> state \<Rightarrow> state" where
  "ready d newId s =
     (case player s of
        None \<Rightarrow> s
      | Some p \<Rightarrow>
          (let s1 = s\<lparr>player := Some (p\<lparr>ws_duration := d\<rparr>), duration := d\<rparr>;
               noRegions = (ws_regions p = []);
               noRows = (rows s1 = []);
               seeded =
                 (if seedOnReady s1 \<or> (noRegions \<and> noRows)
                  then renderRowsToRegions
                         [\<lparr>r_id = newId, r_label = [], r_maxLen = DEFAULT_MAX_LEN,
                           r_start = 0, r_end = min DEFAULT_MAX_LEN d,
                           r_color = COLORS ! 0\<rparr>]
                         (s1\<lparr>seedOnReady := False, isRestoring := True\<rparr>)
                  else s1)
           in case pendingRows s1 of
                None \<Rightarrow> seeded
              | Some toDraw \<Rightarrow>
                  if toDraw \<noteq> []
                  then renderRowsToRegions toDraw (s1\<lparr>pendingRows := None, isRestoring := True\<rparr>)
                  else seeded))"

text \<open>
  The handler of \<open>region-updated\<close>, after the user has dragged the region \<open>rid\<close> to
  \<open>[ds, de]\<close>.
\<close>

definition regionUpdated :: "jsstring \<Rightarrow> real \<Rightarrow> real \<Rightarrow> state \<Rightarrow> state" where
  "regionUpdated rid ds de s =
     (case player s of
        None \<Rightarrow> s
      | Some p \<Rightarrow>
          (let meta = find (\<lambda>r. r_id r = rid) (rows s);
               maxLen = (case meta of Some m \<Rightarrow> r_maxLen m | None \<Rightarrow> DEFAULT_MAX_LEN);
               regEnd = (if de > ds + maxLen then ds + maxLen else de);
               regs = map (\<lambda>g. if reg_id g = rid then g\<lparr>reg_start := ds, reg_end := regEnd\<rparr> else g)
                          (ws_regions p)
           in s\<lparr>player := Some (p\<lparr>ws_regions := regs\<rparr>),
                rows := map (\<lambda>r. if r_id r = rid
                                  then r\<lparr>r_start := ds, r_end := min (ds + r_maxLen r) regEnd\<rparr>
                                  else r) (rows s)\<rparr>))"

subsection \<open>Loading files\<close>

text \<open>
  \<open>loadFile\<close>; \<open>decoded\<close> is the outcome of \<open>decodeAudioData\<close>, \<open>None\<close> when the
  promise rejects. Without a player the call \<open>wsRef.current.load\<close> raises, and nothing
  after it runs.
\<close>

definition loadFile :: "jsfile \<Rightarrow> abuf option \<Rightarrow> state \<Rightarrow> state" where
  "loadFile f decoded s =
     (let s1 = clearAllRegions (s\<lparr>isRestoring := True\<rparr>);
          key = fileKey (Some f);
          cached = (case fileRows s1 key of Some c \<Rightarrow> Some c | None \<Rightarrow> loadRowsLS key s1);
          hasCached = (case cached of Some c \<Rightarrow> c \<noteq> [] | None \<Rightarrow> False);
          s2 = s1\<lparr>seedOnReady := \<not> hasCached,
                  pendingRows := (if hasCached then cached else None)\<rparr>
      in case player s2 of
           None \<Rightarrow> s2
         | Some p \<Rightarrow>
             (case decoded of None \<Rightarrow> s2 | Some buf \<Rightarrow> s2\<lparr>audioBuffer := Some buf\<rparr>))"

text \<open>The effect on \<open>[current, files]\<close>.\<close>

definition loadEffect :: "abuf option \<Rightarrow> state \<Rightarrow> state" where
  "loadEffect decoded s =
     (case currentFile s of None \<Rightarrow> s | Some f \<Rightarrow> loadFile f decoded s)"

text \<open>The test \<open>/\.wav$/i\<close> on a file name.\<close>

definition isWavName :: "jsstring \<Rightarrow> bool" where
  "isWavName name =
     (length name \<ge> 4 \<and>
      (let ext = drop (length name - 4) name
       in ext ! 0 = 0x2E \<and> ext ! 1 \<in> {0x77, 0x57} \<and> ext ! 2 \<in> {0x61, 0x41}
          \<and> ext ! 3 \<in> {0x76, 0x56}))"

definition onPickFiles :: "jsfile list \<Rightarrow> state \<Rightarrow> state" where
  "onPickFiles chosen s =
     (let picked = filter (\<lambda>f. isWavName (f_name f)) chosen
      in if picked \<noteq> []
         then s\<lparr>files := files s @ picked,
                current := (if files s = [] then 0 else current s)\<rparr>
         else s)"

subsection \<open>Editing segments\<close>

definition addRow :: "jsstring \<Rightarrow> state \<Rightarrow> state" where
  "addRow newId s =
     (case player s of
        None \<Rightarrow> s
      | Some p \<Rightarrow>
          if \<not> canAddRegion s then s
          else if length (rows s) \<ge> MAX_REGIONS
          then s\<lparr>alerts := alerts s @ [MaxRegionsNotice]\<rparr>
          else
            (let color = pickColor (rows s);
                 start = 0;
                 endSec = min DEFAULT_MAX_LEN (ws_duration p);
                 s1 = addRegion \<lparr>reg_id = newId, reg_start = start, reg_end = endSec,
                                 reg_color = color\<rparr> s
             in s1\<lparr>rows := rows s1 @
                  [\<lparr>r_id = newId, r_label = [], r_maxLen = DEFAULT_MAX_LEN,
                    r_start = start, r_end = endSec, r_color = color\<rparr>]\<rparr>))"

text \<open>
  A partial update of a row. The fields the update does not name are \<open>None\<close>, which is
  what \<open>??\<close> tests.
\<close>

record patch =
  p_label :: "jsstring option"
  p_maxLen :: "real option"
  p_start :: "real option"
  p_end :: "real option"

text \<open>
  The duration \<open>updateRow\<close> works with,
  \<open>wsRef.current?.getDuration?.() || duration || Infinity\<close>: a duration of zero counts
  as unknown.
\<close>

datatype dur = Finite real | Infinity

definition resolveDuration :: "real option \<Rightarrow> real \<Rightarrow> dur" where
  "resolveDuration wsDur d =
     (case wsDur of
        Some w \<Rightarrow> if w \<noteq> 0 then Finite w else if d \<noteq> 0 then Finite d else Infinity
      | None \<Rightarrow> if d \<noteq> 0 then Finite d else Infinity)"

text \<open>
  The function \<open>updateRow\<close> maps over the row whose identifier matches; the
  specification calls it \<open>applyPatch\<close>.
\<close>

definition applyPatch :: "dur \<Rightarrow> patch \<Rightarrow> row \<Rightarrow> row" where
  "applyPatch dr p r =
     (let maxAllowed = (case dr of Finite d \<Rightarrow> min MAX_LEN (d + 1) | Infinity \<Rightarrow> MAX_LEN);
          maxLen = min maxAllowed
                       (max MIN_LEN (case p_maxLen p of Some m \<Rightarrow> m | None \<Rightarrow> r_maxLen r));
          start0 = (case p_start p of Some v \<Rightarrow> v | None \<Rightarrow> r_start r);
          start = (case dr of
                     Finite d \<Rightarrow> (let latestStart = max 0 (d - maxLen) in min start0 latestStart)
                   | Infinity \<Rightarrow> start0);
          endCandidate = (case p_end p of Some v \<Rightarrow> v | None \<Rightarrow> r_end r);
          endSec = min (start + maxLen) (case dr of Finite d \<Rightarrow> d | Infinity \<Rightarrow> endCandidate)
      in r\<lparr>r_label := (case p_label p of Some l \<Rightarrow> l | None \<Rightarrow> r_label r),
           r_maxLen := maxLen, r_start := start, r_end := endSec\<rparr>)"

text \<open>\<open>setOptions({start, end})\<close> on the first region with the identifier.\<close>

fun setOptionsFirst :: "jsstring \<Rightarrow> (region \<Rightarrow> region) \<Rightarrow> region list \<Rightarrow> region list" where
  "setOptionsFirst rid f [] = []"
| "setOptionsFirst rid f (g # gs) =
     (if reg_id g = rid then f g # gs else g # setOptionsFirst rid f gs)"

definition updateRow :: "jsstring \<Rightarrow> patch \<Rightarrow> state \<Rightarrow> state" where
  "updateRow rid p s =
     (let dr = resolveDuration (map_option ws_duration (player s)) (duration s);
          meta = find (\<lambda>r. r_id r = rid) (rows s);
          s1 = s\<lparr>rows := map (\<lambda>r. if r_id r \<noteq> rid then r else applyPatch dr p r) (rows s)\<rparr>
      in case player s1 of
           None \<Rightarrow> s1
         | Some pl \<Rightarrow>
             (let upd = (\<lambda>reg.
                    let maxLen = min MAX_LEN (max MIN_LEN
                          (case p_maxLen p of
                             Some m \<Rightarrow> m
                           | None \<Rightarrow> (case meta of Some m \<Rightarrow> r_maxLen m
                                       | None \<Rightarrow> DEFAULT_MAX_LEN)));
                        start0 = (case p_start p of Some v \<Rightarrow> v | None \<Rightarrow> reg_start reg);
                        start = (case dr of
                                   Finite d \<Rightarrow> min start0 (max 0 (d - maxLen))
                                 | Infinity \<Rightarrow> start0);
                        endSec = min (start + maxLen)
                                   (case dr of
                                      Finite d \<Rightarrow> d
                                    | Infinity \<Rightarrow>
                                        (case p_end p of Some v \<Rightarrow> v | None \<Rightarrow> reg_end reg))
                    in reg\<lparr>reg_start := start, reg_end := endSec\<rparr>)
              in s1\<lparr>player := Some (pl\<lparr>ws_regions := setOptionsFirst rid upd (ws_regions pl)\<rparr>)\<rparr>))"

fun removeFirst :: "jsstring \<Rightarrow> region list \<Rightarrow> region list" where
  "removeFirst rid [] = []"
| "removeFirst rid (g # gs) = (if reg_id g = rid then gs else g # removeFirst rid gs)"

definition removeRow :: "jsstring \<Rightarrow> state \<Rightarrow> state" where
  "removeRow rid s =
     (if \<not> truthy rid then s
      else
        (let s1 = (case player s of
                     None \<Rightarrow> s
                   | Some p \<Rightarrow> s\<lparr>player := Some (p\<lparr>ws_regions := removeFirst rid (ws_regions p)\<rparr>)\<rparr>)
         in s1\<lparr>rows := filter (\<lambda>r. r_id r \<noteq> rid) (rows s1)\<rparr>))"

subsection \<open>Export\<close>

text \<open>The label part of the file name, \<open>(r.label || "seg").replace(/\s+/g, "_")\<close>.\<close>

definition sanitizedLabel :: "row \<Rightarrow> jsstring" where
  "sanitizedLabel r =
     replaceWhiteSpace (if truthy (r_label r) then r_label r else ascii ''seg'')"

text \<open>
  \<open>saveRow\<close> hands the browser a download, a file name with the bytes of the blob. An
  exception of the slicer or of the encoder rejects the promise before anything is
  downloaded.
\<close>

definition saveRow :: "row \<Rightarrow> state \<Rightarrow> state" where
  "saveRow r s =
     (case audioBuffer s of
        None \<Rightarrow> s
      | Some ab \<Rightarrow>
          (case currentFile s of
             None \<Rightarrow> s
           | Some f \<Rightarrow>
               (case bindE (sliceBuffer ab (r_start r) (min (r_start r + r_maxLen r) (r_end r)))
                           audioBufferToWav of
                  Inl e \<Rightarrow> s
                | Inr blob \<Rightarrow>
                    (let base = baseName (f_name f);
                         lbl = sanitizedLabel r
                     in s\<lparr>downloads := downloads s @
                          [(base @ ascii ''_'' @ lbl @ ascii ''.wav'', blob)]\<rparr>))))"

definition saveAll :: "state \<Rightarrow> state" where
  "saveAll s = fold saveRow (rows s) s"

subsection \<open>Moving between files\<close>

definition nextFile :: "state \<Rightarrow> state" where
  "nextFile s =
     (if int (current s) < int (length (files s)) - 1
      then (persistCurrent s)\<lparr>isRestoring := True, current := current s + 1\<rparr>
      else s)"

text \<open>A click on entry \<open>i\<close> of the file list.\<close>

definition selectFile :: "nat \<Rightarrow> state \<Rightarrow> state" where
  "selectFile i s = (persistCurrent s)\<lparr>isRestoring := True, current := i\<rparr>"

definition completeAndNext :: "state \<Rightarrow> state" where
  "completeAndNext s =
     (if files s = [] then s
      else
        (let curKey = fileKey (currentFile s);
             s1 = deleteRowsLS curKey (s\<lparr>fileRows := (fileRows s)(curKey := None)\<rparr>);
             s2 = s1\<lparr>isRestoring := True\<rparr>;
             nextFiles = take (current s) (files s) @ drop (Suc (current s)) (files s);
             s3 = s2\<lparr>files := nextFiles\<rparr>
         in if nextFiles = [] then clearAllRegions (s3\<lparr>current := 0\<rparr>)
            else s3\<lparr>current := min (current s) (length nextFiles - 1)\<rparr>))"

subsection \<open>Reachable states\<close>

text \<open>
  The mount effect creates the player with no audio loaded; \<open>destroy\<close> resets the
  duration.
\<close>

definition mount :: "state \<Rightarrow> state" where
  "mount s = s\<lparr>player := Some \<lparr>ws_duration = 0, ws_regions = []\<rparr>\<rparr>"

definition destroy :: "state \<Rightarrow> state" where
  "destroy s = s\<lparr>duration := 0\<rparr>"

datatype event =
    Mount | Destroy | AnimationFrame | PersistEffect | BeforeUnload
  | LoadEffect "abuf option" | Ready real jsstring | PickFiles "jsfile list"
  | AddRow jsstring | UpdateRow jsstring patch | RemoveRow jsstring
  | RegionUpdated jsstring real real | SaveRow row | SaveAll
  | NextFile | SelectFile nat | CompleteAndNext | StorageFull bool

fun step :: "event \<Rightarrow> state \<Rightarrow> state" where
  "step Mount s = mount s"
| "step Destroy s = destroy s"
| "step AnimationFrame s = animationFrame s"
| "step PersistEffect s = persistEffect s"
| "step BeforeUnload s = persistCurrent s"
| "step (LoadEffect decoded) s = loadEffect decoded s"
| "step (Ready d newId) s = ready d newId s"
| "step (PickFiles chosen) s = onPickFiles chosen s"
| "step (AddRow newId) s = addRow newId s"
| "step (UpdateRow rid p) s = updateRow rid p s"
| "step (RemoveRow rid) s = removeRow rid s"
| "step (RegionUpdated rid ds de) s = regionUpdated rid ds de s"
| "step (SaveRow r) s = saveRow r s"
| "step SaveAll s = saveAll s"
| "step NextFile s = nextFile s"
| "step (SelectFile i) s = selectFile i s"
| "step CompleteAndNext s = completeAndNext s"
| "step (StorageFull b) s = s\<lparr>storageFull := b\<rparr>"

text \<open>
  A session starts with whatever earlier sessions left in \<open>localStorage\<close> and goes
  through any sequence of events.
\<close>

inductive reachable :: "state \<Rightarrow> bool" where
  reach_init: "reachable (initialState ls)"
| reach_step: "reachable s \<Longrightarrow> reachable (step e s)"

text \<open>
  The cap: the segments on screen, and every list kept in the in-memory cache, number
  at most \<open>MAX_REGIONS\<close>.
\<close>

definition capped :: "state \<Rightarrow> bool" where
  "capped s \<longleftrightarrow>
     length (rows s) \<le> MAX_REGIONS
     \<and> (\<forall>key rs. fileRows s key = Some rs \<longrightarrow> length rs \<le> MAX_REGIONS)"

section \<open>Facts about the palette\<close>

lemma COLORS_length: "length COLORS = 7"
  by (simp add: COLORS_def)

lemma COLORS_distinct: "distinct COLORS"
  by (simp add: COLORS_def ascii_def)

lemma COLORS_truthy: "c \<in> set COLORS \<Longrightarrow> truthy c"
  by (auto simp: COLORS_def ascii_def truthy_def)

lemma COLORS_card: "card (set COLORS) = 7"
  using COLORS_distinct COLORS_length by (simp add: distinct_card)

lemma firstUnused_found:
  assumes "find (\<lambda>c. c \<notin> set used) COLORS = Some c"
  shows "firstUnused used = c"
proof -
  from assms have "c \<in> set COLORS"
    by (auto simp: find_Some_iff)
  then have "truthy c" by (rule COLORS_truthy)
  with assms show ?thesis by (simp add: firstUnused_def)
qed

lemma firstUnused_none:
  assumes "set COLORS \<subseteq> set used"
  shows "firstUnused used = COLORS ! 0"
proof -
  from assms have "find (\<lambda>c. c \<notin> set used) COLORS = None"
    by (auto simp: find_None_iff)
  then show ?thesis by (simp add: firstUnused_def)
qed

lemma firstUnused_first:
  assumes "i < length COLORS" and "COLORS ! i \<notin> set used"
    and "\<forall>j<i. COLORS ! j \<in> set used"
  shows "firstUnused used = COLORS ! i"
proof -
  from assms have "find (\<lambda>c. c \<notin> set used) COLORS = Some (COLORS ! i)"
    by (auto simp: find_Some_iff)
  then show ?thesis by (rule firstUnused_found)
qed

lemma firstUnused_in_palette: "firstUnused used \<in> set COLORS"
proof (cases "find (\<lambda>c. c \<notin> set used) COLORS")
  case None
  then show ?thesis by (simp add: firstUnused_def COLORS_def)
next
  case (Some c)
  then have "c \<in> set COLORS" by (auto simp: find_Some_iff)
  with Some show ?thesis by (simp add: firstUnused_found)
qed

lemma firstUnused_fresh:
  assumes "set used \<subseteq> set COLORS" and "distinct used" and "length used < 7"
  shows "firstUnused used \<notin> set used"
proof -
  have "card (set used) < card (set COLORS)"
    using assms by (simp add: distinct_card COLORS_card)
  then have "\<not> set COLORS \<subseteq> set used"
    by (metis List.finite_set card_mono not_le)
  then obtain x where "x \<in> set COLORS" "x \<notin> set used" by auto
  then have "find (\<lambda>c. c \<notin> set used) COLORS \<noteq> None"
    by (auto simp: find_None_iff)
  then obtain c where c: "find (\<lambda>c. c \<notin> set used) COLORS = Some c" by auto
  then have "c \<notin> set used" by (auto simp: find_Some_iff)
  with c show ?thesis by (simp add: firstUnused_found)
qed


lemma pickColor_in_palette: "pickColor rs \<in> set COLORS"
  by (simp add: pickColor_def firstUnused_in_palette)

text \<open>
  C8. \<open>pickColor\<close> returns the first swatch of the palette that no segment of the list
  uses, and the first swatch of the palette when all seven are in use.
\<close>

theorem pickColor_first_unused:
  "(i < length COLORS \<and> COLORS ! i \<notin> r_color ` set rs
      \<and> (\<forall>j<i. COLORS ! j \<in> r_color ` set rs) \<longrightarrow> pickColor rs = COLORS ! i)
   \<and> (set COLORS \<subseteq> r_color ` set rs \<longrightarrow> pickColor rs = COLORS ! 0)
   \<and> length COLORS = 7"
proof (intro conjI impI)
  assume "i < length COLORS \<and> COLORS ! i \<notin> r_color ` set rs
      \<and> (\<forall>j<i. COLORS ! j \<in> r_color ` set rs)"
  then show "pickColor rs = COLORS ! i"
    by (simp add: pickColor_def firstUnused_first)
next
  assume "set COLORS \<subseteq> r_color ` set rs"
  then show "pickColor rs = COLORS ! 0"
    by (simp add: pickColor_def firstUnused_none)
next
  show "length COLORS = 7" by (rule COLORS_length)
qed

theorem pickColor_first_unused_witness:
  "pickColor [\<lparr>r_id = ascii ''a'', r_label = [], r_maxLen = 1, r_start = 0, r_end = 1,
                r_color = ascii ''#22c55e55''\<rparr>,
              \<lparr>r_id = ascii ''b'', r_label = [], r_maxLen = 1, r_start = 0, r_end = 1,
                r_color = ascii ''#ef444455''\<rparr>] = ascii ''#3b82f655''
   \<and> pickColor (map (\<lambda>c. \<lparr>r_id = c, r_label = [], r_maxLen = 1, r_start = 0, r_end = 1,
                            r_color = c\<rparr>) COLORS) = ascii ''#22c55e55''"
proof
  let ?rs = "[\<lparr>r_id = ascii ''a'', r_label = [], r_maxLen = 1, r_start = 0, r_end = 1,
                r_color = ascii ''#22c55e55''\<rparr>,
              \<lparr>r_id = ascii ''b'', r_label = [], r_maxLen = 1, r_start = 0, r_end = 1,
                r_color = ascii ''#ef444455''\<rparr>]"
  have "1 < length COLORS \<and> COLORS ! 1 \<notin> r_color ` set ?rs
      \<and> (\<forall>j<1. COLORS ! j \<in> r_color ` set ?rs)"
    by (simp add: COLORS_def ascii_def)
  with pickColor_first_unused [of 1 ?rs] have "pickColor ?rs = COLORS ! 1" by blast
  then show "pickColor ?rs = ascii ''#3b82f655''" by (simp add: COLORS_def)
next
  let ?rs = "map (\<lambda>c. \<lparr>r_id = c, r_label = [], r_maxLen = 1, r_start = 0, r_end = 1,
                            r_color = c\<rparr>) COLORS"
  have "set COLORS \<subseteq> r_color ` set ?rs" by (auto simp: image_image)
  with pickColor_first_unused [of 0 ?rs] have "pickColor ?rs = COLORS ! 0" by blast
  then show "pickColor ?rs = ascii ''#22c55e55''" by (simp add: COLORS_def)
qed

section \<open>Unique colours\<close>

lemma ensureFrom_length: "length (ensureFrom used rs) = length rs"
  by (induction rs arbitrary: used) (simp_all add: Let_def)

lemma ensureFrom_fields:
  "i < length rs \<Longrightarrow>
   ensureFrom used rs ! i = (rs ! i)\<lparr>r_color := r_color (ensureFrom used rs ! i)\<rparr>"
proof (induction rs arbitrary: used i)
  case Nil
  then show ?case by simp
next
  case (Cons r rs)
  show ?case
  proof (cases i)
    case 0
    then show ?thesis by (simp add: Let_def)
  next
    case (Suc j)
    with Cons.prems have "j < length rs" by simp
    from Cons.IH [OF this] Suc show ?thesis by (simp add: Let_def)
  qed
qed

lemma ensureFrom_keeps:
  "i < length rs \<Longrightarrow> r_color (rs ! i) \<in> set COLORS \<Longrightarrow>
   r_color (rs ! i) \<notin> set used \<union> r_color ` set (take i (ensureFrom used rs)) \<Longrightarrow>
   r_color (ensureFrom used rs ! i) = r_color (rs ! i)"
proof (induction rs arbitrary: used i)
  case Nil
  then show ?case by simp
next
  case (Cons r rs)
  show ?case
  proof (cases i)
    case 0
    with Cons.prems show ?thesis by (simp add: Let_def COLORS_truthy)
  next
    case (Suc j)
    with Cons.prems show ?thesis
      by (auto simp: Let_def intro!: Cons.IH split: if_splits)
  qed
qed

lemma ensureFrom_colors:
  "set used \<subseteq> set COLORS \<Longrightarrow> distinct used \<Longrightarrow> length used + length rs \<le> 7 \<Longrightarrow>
   r_color ` set (ensureFrom used rs) \<subseteq> set COLORS - set used
   \<and> distinct (map r_color (ensureFrom used rs))"
proof (induction rs arbitrary: used)
  case Nil
  then show ?case by simp
next
  case (Cons r rs)
  define c where "c = (if truthy (r_color r) \<and> r_color r \<in> set COLORS \<and> r_color r \<notin> set used
                       then r_color r else firstUnused used)"
  have eq: "ensureFrom used (r # rs) = r\<lparr>r_color := c\<rparr> # ensureFrom (c # used) rs"
    by (simp add: c_def Let_def)
  from Cons.prems have short: "length used < 7" by simp
  have c_pal: "c \<in> set COLORS"
    by (simp add: c_def firstUnused_in_palette)
  have c_new: "c \<notin> set used"
    using Cons.prems(1,2) short by (simp add: c_def firstUnused_fresh)
  have "set (c # used) \<subseteq> set COLORS" "distinct (c # used)"
    "length (c # used) + length rs \<le> 7"
    using Cons.prems c_pal c_new by simp_all
  from Cons.IH [OF this]
  have tl: "r_color ` set (ensureFrom (c # used) rs) \<subseteq> set COLORS - set (c # used)"
    and dist: "distinct (map r_color (ensureFrom (c # used) rs))"
    by simp_all
  from tl have "c \<notin> r_color ` set (ensureFrom (c # used) rs)" by auto
  with tl dist c_pal c_new show ?case
    unfolding eq by auto
qed

text \<open>
  C10. On a list of at most seven segments \<open>ensureUniqueColors\<close> keeps the length,
  gives every segment a colour of the palette, all of them different, leaves a segment
  its colour when that is a palette colour no earlier segment of the result has, and
  changes no other field.
\<close>

theorem ensureUniqueColors_distinct_palette:
  assumes "length rs \<le> 7"
  shows "length (ensureUniqueColors rs) = length rs
    \<and> (\<forall>r \<in> set (ensureUniqueColors rs). r_color r \<in> set COLORS)
    \<and> distinct (map r_color (ensureUniqueColors rs))
    \<and> (\<forall>i<length rs.
          r_color (rs ! i) \<in> set COLORS
          \<and> r_color (rs ! i) \<notin> r_color ` set (take i (ensureUniqueColors rs))
          \<longrightarrow> r_color (ensureUniqueColors rs ! i) = r_color (rs ! i))
    \<and> (\<forall>i<length rs.
          ensureUniqueColors rs ! i
          = (rs ! i)\<lparr>r_color := r_color (ensureUniqueColors rs ! i)\<rparr>)"
proof -
  have "set [] \<subseteq> set COLORS" "distinct ([] :: jsstring list)"
    "length ([] :: jsstring list) + length rs \<le> 7"
    using assms by simp_all
  from ensureFrom_colors [OF this]
  have "r_color ` set (ensureFrom [] rs) \<subseteq> set COLORS"
    and "distinct (map r_color (ensureFrom [] rs))"
    by auto
  moreover have "\<forall>i<length rs.
          r_color (rs ! i) \<in> set COLORS
          \<and> r_color (rs ! i) \<notin> r_color ` set (take i (ensureFrom [] rs))
          \<longrightarrow> r_color (ensureFrom [] rs ! i) = r_color (rs ! i)"
    using ensureFrom_keeps [of _ rs "[]"] by simp
  moreover have "\<forall>i<length rs.
          ensureFrom [] rs ! i = (rs ! i)\<lparr>r_color := r_color (ensureFrom [] rs ! i)\<rparr>"
    using ensureFrom_fields [of _ rs "[]"] by blast
  ultimately show ?thesis
    unfolding ensureUniqueColors_def by (auto simp: ensureFrom_length)
qed

theorem ensureUniqueColors_distinct_palette_witness:
  "length [\<lparr>r_id = ascii ''a'', r_label = [], r_maxLen = 1, r_start = 0, r_end = 1,
            r_color = ascii ''red''\<rparr>,
           \<lparr>r_id = ascii ''b'', r_label = [], r_maxLen = 1, r_start = 0, r_end = 1,
            r_color = ascii ''#22c55e55''\<rparr>,
           \<lparr>r_id = ascii ''c'', r_label = [], r_maxLen = 1, r_start = 0, r_end = 1,
            r_color = ascii ''#f9731655''\<rparr>] \<le> 7
   \<and> distinct (map r_color (ensureUniqueColors
          [\<lparr>r_id = ascii ''a'', r_label = [], r_maxLen = 1, r_start = 0, r_end = 1,
            r_color = ascii ''red''\<rparr>,
           \<lparr>r_id = ascii ''b'', r_label = [], r_maxLen = 1, r_start = 0, r_end = 1,
            r_color = ascii ''#22c55e55''\<rparr>,
           \<lparr>r_id = ascii ''c'', r_label = [], r_maxLen = 1, r_start = 0, r_end = 1,
            r_color = ascii ''#f9731655''\<rparr>]))
   \<and> map r_color (ensureUniqueColors
          [\<lparr>r_id = ascii ''a'', r_label = [], r_maxLen = 1, r_start = 0, r_end = 1,
            r_color = ascii ''red''\<rparr>,
           \<lparr>r_id = ascii ''b'', r_label = [], r_maxLen = 1, r_start = 0, r_end = 1,
            r_color = ascii ''#22c55e55''\<rparr>,
           \<lparr>r_id = ascii ''c'', r_label = [], r_maxLen = 1, r_start = 0, r_end = 1,
            r_color = ascii ''#f9731655''\<rparr>])
     = [ascii ''#22c55e55'', ascii ''#3b82f655'', ascii ''#f9731655'']"
proof -
  let ?rs = "[\<lparr>r_id = ascii ''a'', r_label = [], r_maxLen = 1, r_start = 0, r_end = 1,
            r_color = ascii ''red''\<rparr>,
           \<lparr>r_id = ascii ''b'', r_label = [], r_maxLen = 1, r_start = 0, r_end = 1,
            r_color = ascii ''#22c55e55''\<rparr>,
           \<lparr>r_id = ascii ''c'', r_label = [], r_maxLen = 1, r_start = 0, r_end = 1,
            r_color = ascii ''#f9731655''\<rparr>]"
  have len: "length ?rs \<le> 7" by simp
  have "map r_color (ensureUniqueColors ?rs)
     = [ascii ''#22c55e55'', ascii ''#3b82f655'', ascii ''#f9731655'']"
    by (simp add: ensureUniqueColors_def firstUnused_def COLORS_def ascii_def truthy_def)
  with len ensureUniqueColors_distinct_palette [OF len] show ?thesis by blast
qed

section \<open>Bytes\<close>

lemma bindE_Inr: "bindE (Inr x) f = f x"
  by (simp add: bindE_def)

lemma mod_le16: "(v::nat) mod 256 + 256 * (v div 256 mod 256) = v mod 65536"
  using mod_mult2_eq [of v 256 256] by simp

lemma mod_le32: "(v::nat) mod 256 + 256 * (v div 256 mod 256) + 65536 * (v div 65536 mod 256)
   + 16777216 * (v div 16777216 mod 256) = v mod 4294967296"
proof -
  have a: "v mod 4294967296 = 65536 * (v div 65536 mod 65536) + v mod 65536"
    using mod_mult2_eq [of v 65536 65536] by simp
  have b: "v div 65536 mod 65536 = 256 * (v div 65536 div 256 mod 256) + v div 65536 mod 256"
    using mod_mult2_eq [of "v div 65536" 256 256] by simp
  have c: "v div 65536 div 256 = v div 16777216"
    by (simp add: div_mult2_eq [symmetric])
  show ?thesis
    unfolding a b c mod_le16 [symmetric] by simp
qed

lemma unat_byte: "unat (of_nat v :: 8 word) = v mod 256"
  by (simp add: unat_of_nat)

lemma unat_byte_int: "int (unat (of_int n :: 8 word)) = n mod 256"
  by (simp add: uint_word_of_int)

lemma setUint8_ok: "off < length view \<Longrightarrow> setUint8 view off v = Inr (view[off := of_nat v])"
  by (simp add: setUint8_def)

lemma getUint16_take:
  "take n a = take n b \<Longrightarrow> off + 2 \<le> n \<Longrightarrow> getUint16 a off = getUint16 b off"
proof -
  assume eq: "take n a = take n b" and le: "off + 2 \<le> n"
  have "\<And>k. k < n \<Longrightarrow> a ! k = b ! k"
    using eq by (metis nth_take)
  with le show ?thesis by (simp add: getUint16_def)
qed

lemma getUint32_take:
  "take n a = take n b \<Longrightarrow> off + 4 \<le> n \<Longrightarrow> getUint32 a off = getUint32 b off"
proof -
  assume eq: "take n a = take n b" and le: "off + 4 \<le> n"
  have "\<And>k. k < n \<Longrightarrow> a ! k = b ! k"
    using eq by (metis nth_take)
  with le show ?thesis by (simp add: getUint32_def)
qed

lemma getInt16_take:
  "take n a = take n b \<Longrightarrow> off + 2 \<le> n \<Longrightarrow> getInt16 a off = getInt16 b off"
  by (simp add: getInt16_def getUint16_take [of n a b off])

section \<open>Sample conversion\<close>

lemma pcm16_range: "- 32768 \<le> pcm16 x \<and> pcm16 x \<le> 32767"
proof -
  define s where "s = max (- 1) (min 1 x)"
  have s: "- 1 \<le> s" "s \<le> 1" by (simp_all add: s_def)
  show ?thesis
  proof (cases "s < 0")
    case True
    have "- 32768 \<le> s * 32768" using s by simp
    then have "- 32768 \<le> \<lceil>s * 32768\<rceil>" by linarith
    moreover have "s * 32768 \<le> 0" using True by simp
    then have "\<lceil>s * 32768\<rceil> \<le> 0" by linarith
    moreover have "s * 32768 < 0" using True by simp
    ultimately show ?thesis
      using True by (simp add: pcm16_def Let_def jsTruncate_def s_def [symmetric])
  next
    case False
    have "0 \<le> s * 32767" using False by simp
    then have lo: "0 \<le> \<lfloor>s * 32767\<rfloor>" by linarith
    have "s * 32767 \<le> 32767" using s by simp
    then have "\<lfloor>s * 32767\<rfloor> \<le> 32767" by linarith
    moreover have "\<not> s * 32767 < 0" using False by simp
    ultimately show ?thesis
      using False lo by (simp add: pcm16_def Let_def jsTruncate_def s_def [symmetric])
  qed
qed

lemma int16_roundtrip:
  assumes "- 32768 \<le> n" and "n \<le> (32767::int)" and "off + 2 \<le> length view"
  shows "getInt16 (view[off := of_int n, off + 1 := of_int (n div 256)]) off = n"
proof -
  have u: "int (getUint16 (view[off := of_int n, off + 1 := of_int (n div 256)]) off)
           = n mod 256 + 256 * (n div 256 mod 256)"
    using assms(3) by (simp add: getUint16_def uint_word_of_int)
  have m: "n mod 256 + 256 * (n div 256 mod 256) = n mod 65536"
    using zmod_zmult2_eq [of 256 n 256] by simp
  show ?thesis
  proof (cases "0 \<le> n")
    case True
    with assms have "n mod 65536 = n" by simp
    with u m True assms show ?thesis by (simp add: getInt16_def Let_def)
  next
    case False
    with assms have "(n + 65536) mod 65536 = n + 65536"
      by (intro mod_pos_pos_trivial) simp_all
    then have "n mod 65536 = n + 65536" by simp
    with u m False assms show ?thesis by (simp add: getInt16_def Let_def)
  qed
qed

lemma writeSamples_ok:
  "offset + 2 * length xs \<le> length view \<Longrightarrow>
   \<exists>out. writeSamples view offset xs = Inr out \<and> length out = length view
     \<and> take offset out = take offset view
     \<and> (\<forall>i<length xs. getInt16 out (offset + 2 * i) = pcm16 (xs ! i))"
proof (induction xs arbitrary: view offset)
  case Nil
  then show ?case by simp
next
  case (Cons x xs)
  define n where "n = pcm16 x"
  define view1 where "view1 = view[offset := of_int n, offset + 1 := of_int (n div 256)]"
  have fits: "offset + 2 \<le> length view" using Cons.prems by simp
  have step: "writeSamples view offset (x # xs) = writeSamples view1 (offset + 2) xs"
    using fits
    by (simp add: Let_def setInt16_def bindE_Inr view1_def n_def pcm16_def)
  have len1: "length view1 = length view" by (simp add: view1_def)
  have "offset + 2 + 2 * length xs \<le> length view1"
    using Cons.prems len1 by simp
  from Cons.IH [OF this] obtain out where
    out: "writeSamples view1 (offset + 2) xs = Inr out"
    and len: "length out = length view1"
    and keep: "take (offset + 2) out = take (offset + 2) view1"
    and rest: "\<forall>i<length xs. getInt16 out (offset + 2 + 2 * i) = pcm16 (xs ! i)"
    by blast
  have "take offset (take (offset + 2) out) = take offset (take (offset + 2) view1)"
    using keep by simp
  then have "take offset out = take offset view1" by (simp add: min_def)
  then have keep0: "take offset out = take offset view"
    by (simp add: view1_def)
  have first: "getInt16 out offset = pcm16 x"
  proof -
    have "getInt16 out offset = getInt16 view1 offset"
      using keep by (rule getInt16_take) simp
    also have "\<dots> = n"
      unfolding view1_def using pcm16_range [of x] fits
      by (intro int16_roundtrip) (simp_all add: n_def)
    finally show ?thesis by (simp add: n_def)
  qed
  have "\<forall>i<length (x # xs). getInt16 out (offset + 2 * i) = pcm16 ((x # xs) ! i)"
  proof (intro allI impI)
    fix i assume "i < length (x # xs)"
    then show "getInt16 out (offset + 2 * i) = pcm16 ((x # xs) ! i)"
      using first rest by (cases i) (simp_all add: add.assoc)
  qed
  with step out len len1 keep0 show ?case by simp
qed

section \<open>Interleaving\<close>

lemma fold_update_length:
  "length (fold (\<lambda>i acc. acc[f i := g i]) is acc) = length acc"
  by (induction "is" arbitrary: acc) simp_all

lemma inner_loop_nth:
  assumes "ch < C"
  shows "fold (\<lambda>i acc. acc[i * C + ch := data ! i]) [0..<n] acc ! k
         = (if k < length acc \<and> k mod C = ch \<and> k div C < n then data ! (k div C) else acc ! k)"
proof (induction n)
  case 0
  then show ?case by simp
next
  case (Suc n)
  let ?prev = "fold (\<lambda>i acc. acc[i * C + ch := data ! i]) [0..<n] acc"
  have len: "length ?prev = length acc" by (rule fold_update_length)
  have pos: "k = n * C + ch \<longleftrightarrow> k mod C = ch \<and> k div C = n"
    using assms by (auto simp: algebra_simps)
  show ?case
  proof (cases "k = n * C + ch")
    case True
    show ?thesis
    proof (cases "k < length acc")
      case inr: True
      with True len Suc pos show ?thesis by simp
    next
      case False
      with True len have "?prev[n * C + ch := data ! n] = ?prev"
        by (simp add: list_update_beyond)
      with False Suc show ?thesis by simp
    qed
  next
    case False
    with pos have "\<not> (k mod C = ch \<and> k div C = n)" by simp
    with False Suc show ?thesis by (auto simp: less_Suc_eq)
  qed
qed

lemma outer_loop_length:
  "length (fold (\<lambda>ch acc. fold (\<lambda>i acc. acc[i * C + ch := chans ! ch ! i]) [0..<N] acc)
              cs acc) = length acc"
  by (induction cs arbitrary: acc) (simp_all add: fold_update_length)

lemma outer_loop_nth:
  assumes "c \<le> C" and "k < N * C"
  shows "fold (\<lambda>ch acc. fold (\<lambda>i acc. acc[i * C + ch := chans ! ch ! i]) [0..<N] acc)
              [0..<c] (replicate (N * C) 0) ! k
         = (if k mod C < c then chans ! (k mod C) ! (k div C) else (0::real))"
  using assms(1)
proof (induction c)
  case 0
  with assms(2) show ?case by simp
next
  case (Suc c)
  let ?prev = "fold (\<lambda>ch acc. fold (\<lambda>i acc. acc[i * C + ch := chans ! ch ! i]) [0..<N] acc)
              [0..<c] (replicate (N * C) 0)"
  have cC: "c < C" "c \<le> C" using Suc.prems by simp_all
  have len: "length ?prev = N * C" by (simp add: outer_loop_length)
  have prev: "?prev ! k = (if k mod C < c then chans ! (k mod C) ! (k div C) else 0)"
    using Suc.IH cC by simp
  have C0: "0 < C" using cC by simp
  have dv: "k div C < N" using assms(2) C0 by (simp add: less_mult_imp_div_less)
  show ?case
    using inner_loop_nth [OF cC(1), of "chans ! c" N ?prev k] len prev dv assms(2)
    by (auto simp: less_Suc_eq)
qed

lemma interleave_length: "length (interleave ab) = ab_length ab * numberOfChannels ab"
  by (simp add: interleave_def Let_def getChannelData_def outer_loop_length)

lemma interleave_nth:
  assumes "i < ab_length ab" and "ch < numberOfChannels ab"
  shows "interleave ab ! (i * numberOfChannels ab + ch) = ab_channels ab ! ch ! i"
proof -
  let ?C = "numberOfChannels ab"
  have "i * ?C + ch < ab_length ab * ?C"
  proof -
    have "i * ?C + ch < i * ?C + ?C" using assms(2) by simp
    also have "\<dots> = Suc i * ?C" by simp
    also have "\<dots> \<le> ab_length ab * ?C" using assms(1) by (intro mult_le_mono1) simp
    finally show ?thesis .
  qed
  from outer_loop_nth(1) [OF le_refl this, of "ab_channels ab"] assms(2)
  show ?thesis
    by (simp add: interleave_def Let_def getChannelData_def)
qed

section \<open>Writes as splices\<close>

lemma splice_one:
  "off < length view \<Longrightarrow> view[off := a] = take off view @ [a] @ drop (off + 1) view"
  by (simp add: upd_conv_take_nth_drop)

lemma splice_more:
  assumes "length ys = k" and "off + k < length view"
  shows "(take off view @ ys @ drop (off + k) view)[off + k := b]
         = take off view @ (ys @ [b]) @ drop (off + (k + 1)) view"
proof -
  have d: "drop (off + k) view = view ! (off + k) # drop (Suc (off + k)) view"
    using assms(2) by (simp add: Cons_nth_drop_Suc)
  have "(take off view @ ys @ drop (off + k) view)[off + k := b]
        = take off view @ (ys @ drop (off + k) view)[k := b]"
    using assms by (simp add: list_update_append)
  also have "(ys @ drop (off + k) view)[k := b] = ys @ (drop (off + k) view)[0 := b]"
    using assms by (simp add: list_update_append)
  also have "(drop (off + k) view)[0 := b] = b # drop (Suc (off + k)) view"
    by (subst d) simp
  finally show ?thesis by simp
qed

lemma splice_two:
  assumes "off + 2 \<le> length view"
  shows "view[off := a, off + 1 := b] = take off view @ [a, b] @ drop (off + 2) view"
proof -
  have "view[off := a] = take off view @ [a] @ drop (off + 1) view"
    using assms by (intro splice_one) simp
  then have "view[off := a, off + 1 := b]
             = (take off view @ [a] @ drop (off + 1) view)[off + 1 := b]" by simp
  also have "\<dots> = take off view @ ([a] @ [b]) @ drop (off + (1 + 1)) view"
    using assms by (intro splice_more) simp_all
  finally show ?thesis by simp
qed

lemma splice_four:
  assumes "off + 4 \<le> length view"
  shows "view[off := a, off + 1 := b, off + 2 := c, off + 3 := d]
         = take off view @ [a, b, c, d] @ drop (off + 4) view"
proof -
  have "view[off := a, off + 1 := b] = take off view @ [a, b] @ drop (off + 2) view"
    using assms by (intro splice_two) simp
  then have "view[off := a, off + 1 := b, off + 2 := c]
             = (take off view @ [a, b] @ drop (off + 2) view)[off + 2 := c]" by simp
  also have "\<dots> = take off view @ ([a, b] @ [c]) @ drop (off + (2 + 1)) view"
    using assms by (intro splice_more) simp_all
  finally have three: "view[off := a, off + 1 := b, off + 2 := c]
             = take off view @ [a, b, c] @ drop (off + 3) view" by simp
  then have "view[off := a, off + 1 := b, off + 2 := c, off + 3 := d]
             = (take off view @ [a, b, c] @ drop (off + 3) view)[off + 3 := d]" by simp
  also have "\<dots> = take off view @ ([a, b, c] @ [d]) @ drop (off + (3 + 1)) view"
    using assms by (intro splice_more) simp_all
  finally show ?thesis by simp
qed

lemma length_le16: "length (le16 v) = 2"
  by (simp add: le16_def)

lemma length_le32: "length (le32 v) = 4"
  by (simp add: le32_def)

lemma length_asciiBytes: "length (asciiBytes s) = length s"
  by (simp add: asciiBytes_def)

lemma setUint16_splice:
  "off + 2 \<le> length view \<Longrightarrow>
   setUint16 view off v = Inr (take off view @ le16 v @ drop (off + 2) view)"
  using splice_two [of off view "of_nat v" "of_nat (v div 256)"]
  by (simp add: setUint16_def le16_def)

lemma setUint32_splice:
  "off + 4 \<le> length view \<Longrightarrow>
   setUint32 view off v = Inr (take off view @ le32 v @ drop (off + 4) view)"
  using splice_four [of off view "of_nat v" "of_nat (v div 256)" "of_nat (v div 65536)"
      "of_nat (v div 16777216)"]
  by (simp add: setUint32_def le32_def)

lemma writeString_splice:
  "off + length str \<le> length view \<Longrightarrow>
   writeString view off str
   = Inr (take off view @ map (\<lambda>c. of_nat (unat c)) str @ drop (off + length str) view)"
proof (induction str arbitrary: view off)
  case Nil
  then show ?case by simp
next
  case (Cons c cs)
  let ?v1 = "view[off := of_nat (unat c)]"
  have lt: "off < length view" using Cons.prems by simp
  have "off + 1 + length cs \<le> length ?v1" using Cons.prems by simp
  from Cons.IH [OF this]
  have "writeString ?v1 (off + 1) cs
        = Inr (take (off + 1) ?v1 @ map (\<lambda>c. of_nat (unat c)) cs
               @ drop (off + 1 + length cs) ?v1)" .
  moreover have "take (off + 1) ?v1 = take off view @ [of_nat (unat c)]"
    using lt by (simp add: take_Suc_conv_app_nth)
  moreover have "drop (off + 1 + length cs) ?v1 = drop (off + 1 + length cs) view"
    by simp
  ultimately show ?case
    using lt by (simp add: setUint8_ok bindE_Inr)
qed

lemma ascii_bytes: "map (\<lambda>c. of_nat (unat c)) (ascii s) = asciiBytes s"
proof -
  have "\<And>c. (of_nat (unat (of_nat (of_char c) :: 16 word)) :: 8 word) = of_nat (of_char c)"
  proof -
    fix c :: char
    have "(of_char c :: nat) < 256" by (rule nat_of_char_less_256)
    also have "(256::nat) < 2 ^ 16" by simp
    finally have "(of_char c :: nat) < 2 ^ 16" .
    then have "take_bit 16 (of_char c :: nat) = of_char c"
      by (simp add: take_bit_nat_eq_self)
    then show "(of_nat (unat (of_nat (of_char c) :: 16 word)) :: 8 word) = of_nat (of_char c)"
      by (simp add: unsigned_of_nat)
  qed
  then show ?thesis by (simp add: ascii_def asciiBytes_def)
qed

lemma writeString_ascii:
  assumes "off + length s \<le> length view"
  shows "writeString view off (ascii s)
         = Inr (take off view @ asciiBytes s @ drop (off + length s) view)"
proof -
  have len: "length (ascii s) = length s" by (simp add: ascii_def)
  from assms have "off + length (ascii s) \<le> length view" by (simp add: len)
  from writeString_splice [OF this] show ?thesis by (simp only: ascii_bytes len)
qed

lemma getUint16_le16:
  "length pre = off \<Longrightarrow> getUint16 (pre @ le16 v @ rest) off = v mod 65536"
  by (simp add: getUint16_def nth_append le16_def unat_byte mod_le16)

lemma getUint32_le32:
  "length pre = off \<Longrightarrow> getUint32 (pre @ le32 v @ rest) off = v mod 4294967296"
  by (simp add: getUint32_def nth_append le32_def unat_byte mod_le32)

section \<open>The header\<close>

lemma header_chain:
  fixes K :: "bytes \<Rightarrow> error + bytes"
  shows
    "bindE (writeString (replicate (44 + m) 0) 0 (ascii ''RIFF'')) (\<lambda>view.
     bindE (setUint32 view 4 riffSize) (\<lambda>view.
     bindE (writeString view 8 (ascii ''WAVE'')) (\<lambda>view.
     bindE (writeString view 12 (ascii ''fmt '')) (\<lambda>view.
     bindE (setUint32 view 16 16) (\<lambda>view.
     bindE (setUint16 view 20 1) (\<lambda>view.
     bindE (setUint16 view 22 numChannels) (\<lambda>view.
     bindE (setUint32 view 24 sampleRate) (\<lambda>view.
     bindE (setUint32 view 28 byteRate) (\<lambda>view.
     bindE (setUint16 view 32 blockAlign) (\<lambda>view.
     bindE (setUint16 view 34 16) (\<lambda>view.
     bindE (writeString view 36 (ascii ''data'')) (\<lambda>view.
     bindE (setUint32 view 40 dataSize) (\<lambda>view. K view)))))))))))))
     = K (asciiBytes ''RIFF'' @ le32 riffSize @ asciiBytes ''WAVE'' @ asciiBytes ''fmt ''
          @ le32 16 @ le16 1 @ le16 numChannels @ le32 sampleRate @ le32 byteRate
          @ le16 blockAlign @ le16 16 @ asciiBytes ''data'' @ le32 dataSize
          @ replicate m 0)"
  by (simp add: writeString_ascii setUint32_splice setUint16_splice bindE_Inr
        length_le16 length_le32 length_asciiBytes)

lemma length_wavHeader: "length (wavHeader c r d) = 44"
  by (simp add: wavHeader_def length_le16 length_le32 length_asciiBytes)

lemma audioBufferToWav_bytes:
  "\<exists>out. audioBufferToWav ab = Inr out
     \<and> length out = 44 + 2 * length (interleave ab)
     \<and> take 44 out = wavHeader (numberOfChannels ab) (ab_sampleRate ab)
                        (length (interleave ab) * 2)
     \<and> (\<forall>k<length (interleave ab). getInt16 out (44 + 2 * k) = pcm16 (interleave ab ! k))"
proof -
  let ?I = "interleave ab"
  let ?H = "wavHeader (numberOfChannels ab) (ab_sampleRate ab) (length ?I * 2)"
  let ?view = "?H @ replicate (length ?I * 2) 0"
  have unfold: "audioBufferToWav ab = writeSamples ?view 44 ?I"
    unfolding audioBufferToWav_def Let_def
    by (subst header_chain [where K = "\<lambda>view. writeSamples view 44 (interleave ab)"])
       (simp add: wavHeader_def)
  have "44 + 2 * length ?I \<le> length ?view"
    by (simp add: length_wavHeader)
  from writeSamples_ok [OF this] obtain out where
    out: "writeSamples ?view 44 ?I = Inr out"
    and len: "length out = length ?view"
    and keep: "take 44 out = take 44 ?view"
    and smp: "\<forall>i<length ?I. getInt16 out (44 + 2 * i) = pcm16 (?I ! i)"
    by blast
  from keep have "take 44 out = ?H" by (simp add: length_wavHeader)
  with unfold out len smp show ?thesis
    by (simp add: length_wavHeader)
qed

lemma wavHeader_fields:
  assumes "take 44 out = wavHeader c r d"
  shows "take 4 out = asciiBytes ''RIFF''"
    and "getUint32 out 4 = (36 + d) mod 4294967296"
    and "take 4 (drop 8 out) = asciiBytes ''WAVE''"
    and "take 4 (drop 12 out) = asciiBytes ''fmt ''"
    and "getUint32 out 16 = 16"
    and "getUint16 out 20 = 1"
    and "getUint16 out 22 = c mod 65536"
    and "getUint32 out 24 = r mod 4294967296"
    and "getUint32 out 28 = (r * c * 2) mod 4294967296"
    and "getUint16 out 32 = (c * 2) mod 65536"
    and "getUint16 out 34 = 16"
    and "take 4 (drop 36 out) = asciiBytes ''data''"
    and "getUint32 out 40 = d mod 4294967296"
proof -
  let ?H = "wavHeader c r d"
  have eq: "take 44 out = take 44 ?H"
    using assms by (simp add: length_wavHeader)
  have t: "\<And>k. k + 4 \<le> 44 \<Longrightarrow> take 4 (drop k out) = take 4 (drop k ?H)"
  proof -
    fix k :: nat assume k: "k + 4 \<le> 44"
    have "take 4 (drop k out) = take 4 (drop k (take 44 out))"
      using k by (simp add: drop_take min_def)
    also have "\<dots> = take 4 (drop k ?H)" by (simp add: assms)
    finally show "take 4 (drop k out) = take 4 (drop k ?H)" .
  qed
  have g32: "\<And>k. k + 4 \<le> 44 \<Longrightarrow> getUint32 out k = getUint32 ?H k"
    using eq by (rule getUint32_take)
  have g16: "\<And>k. k + 2 \<le> 44 \<Longrightarrow> getUint16 out k = getUint16 ?H k"
    using eq by (rule getUint16_take)
  note L = length_le16 length_le32 length_asciiBytes
  show "take 4 out = asciiBytes ''RIFF''"
    using t [of 0] by (simp add: wavHeader_def L)
  show "take 4 (drop 8 out) = asciiBytes ''WAVE''"
    using t [of 8] by (simp add: wavHeader_def L)
  show "take 4 (drop 12 out) = asciiBytes ''fmt ''"
    using t [of 12] by (simp add: wavHeader_def L)
  show "take 4 (drop 36 out) = asciiBytes ''data''"
    using t [of 36] by (simp add: wavHeader_def L)
  show "getUint32 out 4 = (36 + d) mod 4294967296"
    using g32 [of 4] getUint32_le32 [of "asciiBytes ''RIFF''" 4 "36 + d"]
    by (simp add: wavHeader_def L)
  show "getUint32 out 16 = 16"
    using g32 [of 16]
      getUint32_le32 [of "asciiBytes ''RIFF'' @ le32 (36 + d) @ asciiBytes ''WAVE''
          @ asciiBytes ''fmt ''" 16 16]
    by (simp add: wavHeader_def L)
  show "getUint16 out 20 = 1"
    using g16 [of 20]
      getUint16_le16 [of "asciiBytes ''RIFF'' @ le32 (36 + d) @ asciiBytes ''WAVE''
          @ asciiBytes ''fmt '' @ le32 16" 20 1]
    by (simp add: wavHeader_def L)
  show "getUint16 out 22 = c mod 65536"
    using g16 [of 22]
      getUint16_le16 [of "asciiBytes ''RIFF'' @ le32 (36 + d) @ asciiBytes ''WAVE''
          @ asciiBytes ''fmt '' @ le32 16 @ le16 1" 22 c]
    by (simp add: wavHeader_def L)
  show "getUint32 out 24 = r mod 4294967296"
    using g32 [of 24]
      getUint32_le32 [of "asciiBytes ''RIFF'' @ le32 (36 + d) @ asciiBytes ''WAVE''
          @ asciiBytes ''fmt '' @ le32 16 @ le16 1 @ le16 c" 24 r]
    by (simp add: wavHeader_def L)
  show "getUint32 out 28 = (r * c * 2) mod 4294967296"
    using g32 [of 28]
      getUint32_le32 [of "asciiBytes ''RIFF'' @ le32 (36 + d) @ asciiBytes ''WAVE''
          @ asciiBytes ''fmt '' @ le32 16 @ le16 1 @ le16 c @ le32 r" 28 "r * c * 2"]
    by (simp add: wavHeader_def L)
  show "getUint16 out 32 = (c * 2) mod 65536"
    using g16 [of 32]
      getUint16_le16 [of "asciiBytes ''RIFF'' @ le32 (36 + d) @ asciiBytes ''WAVE''
          @ asciiBytes ''fmt '' @ le32 16 @ le16 1 @ le16 c @ le32 r
          @ le32 (r * c * 2)" 32 "c * 2"]
    by (simp add: wavHeader_def L)
  show "getUint16 out 34 = 16"
    using g16 [of 34]
      getUint16_le16 [of "asciiBytes ''RIFF'' @ le32 (36 + d) @ asciiBytes ''WAVE''
          @ asciiBytes ''fmt '' @ le32 16 @ le16 1 @ le16 c @ le32 r
          @ le32 (r * c * 2) @ le16 (c * 2)" 34 16]
    by (simp add: wavHeader_def L)
  show "getUint32 out 40 = d mod 4294967296"
    using g32 [of 40]
      getUint32_le32 [of "asciiBytes ''RIFF'' @ le32 (36 + d) @ asciiBytes ''WAVE''
          @ asciiBytes ''fmt '' @ le32 16 @ le16 1 @ le16 c @ le32 r
          @ le32 (r * c * 2) @ le16 (c * 2) @ le16 16 @ asciiBytes ''data''" 40 d "[]"]
    by (simp add: wavHeader_def L)
qed

lemma audioBufferToWav_fields:
  "\<exists>bytes. audioBufferToWav ab = Inr bytes
     \<and> length bytes = 44 + 2 * (ab_length ab * numberOfChannels ab)
     \<and> take 44 bytes = wavHeader (numberOfChannels ab) (ab_sampleRate ab)
                          (ab_length ab * numberOfChannels ab * 2)
     \<and> (\<forall>i<ab_length ab. \<forall>ch<numberOfChannels ab.
            getInt16 bytes (44 + 2 * (i * numberOfChannels ab + ch))
            = pcm16 (ab_channels ab ! ch ! i))"
proof -
  let ?C = "numberOfChannels ab" and ?N = "ab_length ab"
  from audioBufferToWav_bytes [of ab] obtain out where
    out: "audioBufferToWav ab = Inr out"
    and len: "length out = 44 + 2 * length (interleave ab)"
    and hdr: "take 44 out = wavHeader ?C (ab_sampleRate ab) (length (interleave ab) * 2)"
    and smp: "\<forall>k<length (interleave ab). getInt16 out (44 + 2 * k) = pcm16 (interleave ab ! k)"
    by blast
  have "\<forall>i<?N. \<forall>ch<?C. getInt16 out (44 + 2 * (i * ?C + ch)) = pcm16 (ab_channels ab ! ch ! i)"
  proof (intro allI impI)
    fix i ch assume i: "i < ?N" and ch: "ch < ?C"
    have "i * ?C + ch < i * ?C + ?C" using ch by simp
    also have "\<dots> = Suc i * ?C" by simp
    also have "\<dots> \<le> ?N * ?C" using i by (intro mult_le_mono1) simp
    finally have "i * ?C + ch < length (interleave ab)"
      by (simp add: interleave_length)
    with smp have "getInt16 out (44 + 2 * (i * ?C + ch)) = pcm16 (interleave ab ! (i * ?C + ch))"
      by blast
    with i ch show "getInt16 out (44 + 2 * (i * ?C + ch)) = pcm16 (ab_channels ab ! ch ! i)"
      by (simp add: interleave_nth)
  qed
  with out len hdr show ?thesis
    by (simp add: interleave_length)
qed

text \<open>
  C1 (as amended). When the sizes fit the fields of the header, \<open>audioBufferToWav\<close>
  returns \<open>44 + 2 * N * C\<close> bytes: the chunk identifiers, the header fields with the
  values the specification lists, read back little-endian, and after the header the
  samples frame by frame and channel by channel, each clamped to \<open>[-1, 1]\<close>, scaled by
  32768 when negative and by 32767 otherwise, truncated and stored as a little-endian
  signed 16-bit integer.
\<close>

theorem audioBufferToWav_pcm16:
  assumes "wfBuffer ab"
    and "numberOfChannels ab * 2 < 65536"
    and "ab_sampleRate ab < 4294967296"
    and "ab_sampleRate ab * numberOfChannels ab * 2 < 4294967296"
    and "36 + 2 * ab_length ab * numberOfChannels ab < 4294967296"
  shows "\<exists>bytes. audioBufferToWav ab = Inr bytes
     \<and> length bytes = 44 + 2 * ab_length ab * numberOfChannels ab
     \<and> take 4 bytes = asciiBytes ''RIFF''
     \<and> getUint32 bytes 4 = 36 + 2 * ab_length ab * numberOfChannels ab
     \<and> take 4 (drop 8 bytes) = asciiBytes ''WAVE''
     \<and> take 4 (drop 12 bytes) = asciiBytes ''fmt ''
     \<and> getUint32 bytes 16 = 16
     \<and> getUint16 bytes 20 = 1
     \<and> getUint16 bytes 22 = numberOfChannels ab
     \<and> getUint32 bytes 24 = ab_sampleRate ab
     \<and> getUint32 bytes 28 = ab_sampleRate ab * numberOfChannels ab * 2
     \<and> getUint16 bytes 32 = numberOfChannels ab * 2
     \<and> getUint16 bytes 34 = 16
     \<and> take 4 (drop 36 bytes) = asciiBytes ''data''
     \<and> getUint32 bytes 40 = 2 * ab_length ab * numberOfChannels ab
     \<and> (\<forall>i<ab_length ab. \<forall>ch<numberOfChannels ab.
            getInt16 bytes (44 + 2 * (i * numberOfChannels ab + ch))
            = pcm16 (ab_channels ab ! ch ! i))"
proof -
  let ?C = "numberOfChannels ab" and ?N = "ab_length ab" and ?R = "ab_sampleRate ab"
  from audioBufferToWav_fields [of ab] obtain bytes where
    out: "audioBufferToWav ab = Inr bytes"
    and len: "length bytes = 44 + 2 * (?N * ?C)"
    and hdr: "take 44 bytes = wavHeader ?C ?R (?N * ?C * 2)"
    and smp: "\<forall>i<?N. \<forall>ch<?C.
            getInt16 bytes (44 + 2 * (i * ?C + ch)) = pcm16 (ab_channels ab ! ch ! i)"
    by blast
  have d: "?N * ?C * 2 = 2 * ?N * ?C" by simp
  have c16: "?C < 65536" using assms(2) by simp
  have d32: "2 * ?N * ?C < 4294967296" using assms(5) by simp
  note f = wavHeader_fields [OF hdr]
  have "take 4 bytes = asciiBytes ''RIFF''" by (rule f)
  moreover have "getUint32 bytes 4 = 36 + 2 * ?N * ?C"
    using f(2) assms(5) by (simp add: d)
  moreover have "take 4 (drop 8 bytes) = asciiBytes ''WAVE''" by (rule f)
  moreover have "take 4 (drop 12 bytes) = asciiBytes ''fmt ''" by (rule f)
  moreover have "getUint32 bytes 16 = 16" by (rule f)
  moreover have "getUint16 bytes 20 = 1" by (rule f)
  moreover have "getUint16 bytes 22 = ?C" using f(7) c16 by simp
  moreover have "getUint32 bytes 24 = ?R" using f(8) assms(3) by simp
  moreover have "getUint32 bytes 28 = ?R * ?C * 2" using f(9) assms(4) by simp
  moreover have "getUint16 bytes 32 = ?C * 2" using f(10) assms(2) by simp
  moreover have "getUint16 bytes 34 = 16" by (rule f)
  moreover have "take 4 (drop 36 bytes) = asciiBytes ''data''" by (rule f)
  moreover have "getUint32 bytes 40 = 2 * ?N * ?C" using f(13) d32 by (simp add: d)
  moreover have "length bytes = 44 + 2 * ?N * ?C" using len by simp
  ultimately show ?thesis using out smp by blast
qed

theorem audioBufferToWav_pcm16_witness:
  "wfBuffer \<lparr>ab_sampleRate = 44100, ab_length = 2,
             ab_channels = [[1 / 2, - 1], [2, - 1 / 4]]\<rparr>
   \<and> (\<exists>bytes. audioBufferToWav \<lparr>ab_sampleRate = 44100, ab_length = 2,
             ab_channels = [[1 / 2, - 1], [2, - 1 / 4]]\<rparr> = Inr bytes
        \<and> length bytes = 52
        \<and> getUint32 bytes 4 = 44
        \<and> getUint16 bytes 22 = 2
        \<and> getUint32 bytes 24 = 44100
        \<and> getUint32 bytes 28 = 176400
        \<and> getUint16 bytes 32 = 4
        \<and> getUint32 bytes 40 = 8
        \<and> getInt16 bytes 44 = 16383
        \<and> getInt16 bytes 46 = 32767
        \<and> getInt16 bytes 48 = - 32768
        \<and> getInt16 bytes 50 = - 8192)"
proof -
  let ?ab = "\<lparr>ab_sampleRate = 44100, ab_length = 2,
             ab_channels = [[1 / 2, - 1], [2, - 1 / 4 :: real]]\<rparr>"
  have wf: "wfBuffer ?ab" by (simp add: wfBuffer_def)
  have h: "numberOfChannels ?ab * 2 < 65536" "ab_sampleRate ?ab < 4294967296"
    "ab_sampleRate ?ab * numberOfChannels ?ab * 2 < 4294967296"
    "36 + 2 * ab_length ?ab * numberOfChannels ?ab < 4294967296"
    by (simp_all add: numberOfChannels_def)
  from audioBufferToWav_pcm16 [OF wf h] obtain bytes where
    b: "audioBufferToWav ?ab = Inr bytes"
      "length bytes = 44 + 2 * ab_length ?ab * numberOfChannels ?ab"
      "getUint32 bytes 4 = 36 + 2 * ab_length ?ab * numberOfChannels ?ab"
      "getUint16 bytes 22 = numberOfChannels ?ab"
      "getUint32 bytes 24 = ab_sampleRate ?ab"
      "getUint32 bytes 28 = ab_sampleRate ?ab * numberOfChannels ?ab * 2"
      "getUint16 bytes 32 = numberOfChannels ?ab * 2"
      "getUint32 bytes 40 = 2 * ab_length ?ab * numberOfChannels ?ab"
    and smp: "\<forall>i<ab_length ?ab. \<forall>ch<numberOfChannels ?ab.
            getInt16 bytes (44 + 2 * (i * numberOfChannels ?ab + ch))
            = pcm16 (ab_channels ?ab ! ch ! i)"
    by blast
  have p: "pcm16 (1 / 2) = 16383" "pcm16 2 = 32767" "pcm16 (- 1) = - 32768"
    "pcm16 (- 1 / 4) = - 8192"
    by (simp_all add: pcm16_def jsTruncate_def Let_def)
  have "getInt16 bytes 44 = 16383"
    using smp [rule_format, of 0 0] p by (simp add: numberOfChannels_def)
  moreover have "getInt16 bytes 46 = 32767"
    using smp [rule_format, of 0 1] p by (simp add: numberOfChannels_def)
  moreover have "getInt16 bytes 48 = - 32768"
    using smp [rule_format, of 1 0] p by (simp add: numberOfChannels_def)
  moreover have "getInt16 bytes 50 = - 8192"
    using smp [rule_format, of 1 1] p by (simp add: numberOfChannels_def)
  ultimately show ?thesis
    using wf b by (simp add: numberOfChannels_def)
qed

text \<open>
  A buffer of \<open>2^31\<close> mono frames is well formed and is encoded without an error, but
  its RIFF size, \<open>36 + 2^32\<close>, does not fit the 32-bit field: the header holds 36.
\<close>

theorem audioBufferToWav_riff_size_counterexample:
  "wfBuffer \<lparr>ab_sampleRate = 44100, ab_length = 2147483648,
             ab_channels = [replicate 2147483648 0]\<rparr>
   \<and> \<not> isl (audioBufferToWav \<lparr>ab_sampleRate = 44100, ab_length = 2147483648,
             ab_channels = [replicate 2147483648 0]\<rparr>)
   \<and> getUint32 (projr (audioBufferToWav \<lparr>ab_sampleRate = 44100, ab_length = 2147483648,
             ab_channels = [replicate 2147483648 0]\<rparr>)) 4 = 36
   \<and> 36 + 2 * ab_length \<lparr>ab_sampleRate = 44100, ab_length = 2147483648,
             ab_channels = [replicate 2147483648 0]\<rparr>
        * numberOfChannels \<lparr>ab_sampleRate = 44100, ab_length = 2147483648,
             ab_channels = [replicate 2147483648 0]\<rparr> = 4294967332"
proof -
  let ?ab = "\<lparr>ab_sampleRate = 44100, ab_length = 2147483648,
             ab_channels = [replicate 2147483648 (0::real)]\<rparr>"
  have wf: "wfBuffer ?ab" by (simp add: wfBuffer_def)
  from audioBufferToWav_fields [of ?ab] obtain bytes where
    out: "audioBufferToWav ?ab = Inr bytes"
    and hdr: "take 44 bytes = wavHeader (numberOfChannels ?ab) (ab_sampleRate ?ab)
                          (ab_length ?ab * numberOfChannels ?ab * 2)"
    by blast
  have "getUint32 bytes 4 = (36 + ab_length ?ab * numberOfChannels ?ab * 2) mod 4294967296"
    by (rule wavHeader_fields(2) [OF hdr])
  then have "getUint32 bytes 4 = 36"
    by (simp add: numberOfChannels_def)
  with wf out show ?thesis
    by (simp add: numberOfChannels_def)
qed

section \<open>Slicing\<close>

lemma copyToChannel_simps:
  "ab_length (copyToChannel out src ch off) = ab_length out"
  "ab_sampleRate (copyToChannel out src ch off) = ab_sampleRate out"
  "length (ab_channels (copyToChannel out src ch off)) = length (ab_channels out)"
  by (simp_all add: copyToChannel_def Let_def)

lemma fold_copy_simps:
  "ab_length (fold (\<lambda>ch out. copyToChannel out (srcs ch) ch 0) cs out) = ab_length out"
  "ab_sampleRate (fold (\<lambda>ch out. copyToChannel out (srcs ch) ch 0) cs out) = ab_sampleRate out"
  "length (ab_channels (fold (\<lambda>ch out. copyToChannel out (srcs ch) ch 0) cs out))
   = length (ab_channels out)"
  by (induction cs arbitrary: out) (simp_all add: copyToChannel_simps)

lemma fold_copy_nth:
  assumes "c \<le> length (ab_channels out)" and "k < length (ab_channels out)"
  shows "ab_channels (fold (\<lambda>ch out. copyToChannel out (srcs ch) ch 0) [0..<c] out) ! k
         = (if k < c
            then take (min (length (srcs k)) (length (ab_channels out ! k))) (srcs k)
                 @ drop (min (length (srcs k)) (length (ab_channels out ! k)))
                        (ab_channels out ! k)
            else ab_channels out ! k)"
  using assms(1)
proof (induction c)
  case 0
  then show ?case by simp
next
  case (Suc c)
  let ?prev = "fold (\<lambda>ch out. copyToChannel out (srcs ch) ch 0) [0..<c] out"
  have len: "length (ab_channels ?prev) = length (ab_channels out)"
    by (rule fold_copy_simps)
  have c: "c < length (ab_channels out)" using Suc.prems by simp
  have prev: "ab_channels ?prev ! k
         = (if k < c
            then take (min (length (srcs k)) (length (ab_channels out ! k))) (srcs k)
                 @ drop (min (length (srcs k)) (length (ab_channels out ! k)))
                        (ab_channels out ! k)
            else ab_channels out ! k)"
    using Suc.IH c by simp
  show ?case
  proof (cases "k = c")
    case True
    with prev c len show ?thesis
      by (simp add: copyToChannel_def Let_def)
  next
    case False
    with prev c len show ?thesis
      by (auto simp: copyToChannel_def Let_def less_Suc_eq)
  qed
qed

lemma slice_frames_spec:
  "max 0 (min fe (int n) - max 0 fs)
   = max 0 (max 0 (min (int n) fe) - max 0 (min (int n) fs))"
  by (simp add: max_def min_def)

lemma subarray_slice:
  assumes "length d = n" and "0 \<le> sf" and "ef \<le> int n"
  shows "take (nat (max 0 (ef - sf))) (subarray d sf ef)
         = take (nat (max 0 (ef - sf))) (drop (nat sf) d)
       \<and> min (length (subarray d sf ef)) (nat (max 0 (ef - sf))) = nat (max 0 (ef - sf))"
proof (cases "sf < ef")
  case True
  with assms have "subarray d sf ef = take (nat (ef - sf)) (drop (nat sf) d)"
    by (simp add: subarray_def Let_def min_def)
  moreover have "nat (ef - sf) \<le> n - nat sf" using True assms by linarith
  ultimately show ?thesis using True assms by (simp add: min_def max_def)
next
  case False
  then show ?thesis by (simp add: max_def)
qed

lemma sliceBuffer_unfold:
  fixes ab :: abuf and startSec endSec :: real
  defines "sf \<equiv> max 0 \<lfloor>startSec * real (ab_sampleRate ab)\<rfloor>"
    and "ef \<equiv> min \<lfloor>endSec * real (ab_sampleRate ab)\<rfloor> (int (ab_length ab))"
  shows "sliceBuffer ab startSec endSec
    = (if numberOfChannels ab = 0 \<or> ef \<le> sf \<or> ab_sampleRate ab = 0
       then Inl NotSupportedError
       else Inr (fold (\<lambda>ch out. copyToChannel out (subarray (getChannelData ab ch) sf ef) ch 0)
                   [0..<numberOfChannels ab]
                   \<lparr>ab_sampleRate = ab_sampleRate ab, ab_length = nat (ef - sf),
                    ab_channels = replicate (numberOfChannels ab)
                                    (replicate (nat (ef - sf)) 0)\<rparr>))"
proof (cases "ef \<le> sf")
  case True
  then have "nat (max 0 (ef - sf)) = 0" by simp
  with True show ?thesis
    by (simp add: sliceBuffer_def Let_def createBuffer_def bindE_def sf_def ef_def)
next
  case False
  then have "nat (max 0 (ef - sf)) = nat (ef - sf)" "nat (ef - sf) \<noteq> 0" by simp_all
  with False show ?thesis
    by (simp add: sliceBuffer_def Let_def createBuffer_def bindE_def sf_def ef_def)
qed

lemma sliceBuffer_channels:
  fixes ab :: abuf and startSec endSec :: real
  assumes "wfBuffer ab"
  defines "sf \<equiv> max 0 \<lfloor>startSec * real (ab_sampleRate ab)\<rfloor>"
    and "ef \<equiv> min \<lfloor>endSec * real (ab_sampleRate ab)\<rfloor> (int (ab_length ab))"
  assumes "sf < ef" and "1 \<le> numberOfChannels ab"
  shows "\<exists>out. sliceBuffer ab startSec endSec = Inr out
     \<and> ab_length out = nat (ef - sf)
     \<and> ab_sampleRate out = ab_sampleRate ab
     \<and> numberOfChannels out = numberOfChannels ab
     \<and> (\<forall>ch<numberOfChannels ab.
           ab_channels out ! ch = take (nat (ef - sf)) (drop (nat sf) (ab_channels ab ! ch)))"
proof -
  let ?frames = "nat (ef - sf)"
  let ?zeros = "\<lparr>ab_sampleRate = ab_sampleRate ab, ab_length = ?frames,
                ab_channels = replicate (numberOfChannels ab) (replicate ?frames 0)\<rparr>"
  let ?srcs = "\<lambda>ch. subarray (getChannelData ab ch) sf ef"
  let ?res = "fold (\<lambda>ch out. copyToChannel out (?srcs ch) ch 0) [0..<numberOfChannels ab] ?zeros"
  have rate: "ab_sampleRate ab \<noteq> 0"
  proof
    assume "ab_sampleRate ab = 0"
    then have "sf = 0" "ef \<le> 0" by (simp_all add: sf_def ef_def)
    with assms(4) show False by simp
  qed
  have unfold: "sliceBuffer ab startSec endSec = Inr ?res"
    using sliceBuffer_unfold [of ab startSec endSec, folded sf_def ef_def] assms(4,5) rate
    by simp
  have mx: "nat (max 0 (ef - sf)) = ?frames" using assms(4) by simp
  have chans0: "length (ab_channels ?zeros) = numberOfChannels ab" by simp
  have "ab_length ?res = ?frames" by (simp add: fold_copy_simps)
  moreover have "ab_sampleRate ?res = ab_sampleRate ab" by (simp add: fold_copy_simps)
  moreover have "numberOfChannels ?res = numberOfChannels ab"
    by (simp add: numberOfChannels_def fold_copy_simps)
  moreover have "\<forall>ch<numberOfChannels ab.
           ab_channels ?res ! ch = take ?frames (drop (nat sf) (ab_channels ab ! ch))"
  proof (intro allI impI)
    fix ch assume ch: "ch < numberOfChannels ab"
    then have "ab_channels ab ! ch \<in> set (ab_channels ab)"
      by (simp add: numberOfChannels_def)
    with assms(1) have lend: "length (getChannelData ab ch) = ab_length ab"
      by (simp add: wfBuffer_def getChannelData_def)
    have zero: "ab_channels ?zeros ! ch = replicate ?frames 0"
      using ch by simp
    have sf0: "0 \<le> sf" and efn: "ef \<le> int (ab_length ab)"
      by (simp_all add: sf_def ef_def)
    note sub = subarray_slice [OF lend sf0 efn, unfolded mx]
    have "ab_channels ?res ! ch
          = take (min (length (?srcs ch)) ?frames) (?srcs ch)
            @ drop (min (length (?srcs ch)) ?frames) (replicate ?frames 0)"
      using fold_copy_nth [of "numberOfChannels ab" ?zeros ch ?srcs] ch chans0 zero
      by simp
    also have "\<dots> = take ?frames (drop (nat sf) (getChannelData ab ch))
                      @ drop ?frames (replicate ?frames 0)"
      by (simp only: sub [THEN conjunct2] sub [THEN conjunct1])
    also have "\<dots> = take ?frames (drop (nat sf) (getChannelData ab ch))"
      by simp
    finally show "ab_channels ?res ! ch = take ?frames (drop (nat sf) (ab_channels ab ! ch))"
      by (simp add: getChannelData_def)
  qed
  ultimately show ?thesis using unfold by blast
qed

lemma sliceBuffer_empty:
  assumes "endSec \<le> startSec"
  shows "sliceBuffer ab startSec endSec = Inl NotSupportedError"
proof -
  define sf where "sf = max 0 \<lfloor>startSec * real (ab_sampleRate ab)\<rfloor>"
  define ef where "ef = min \<lfloor>endSec * real (ab_sampleRate ab)\<rfloor> (int (ab_length ab))"
  have "endSec * real (ab_sampleRate ab) \<le> startSec * real (ab_sampleRate ab)"
    using assms by (simp add: mult_right_mono)
  then have "\<lfloor>endSec * real (ab_sampleRate ab)\<rfloor> \<le> \<lfloor>startSec * real (ab_sampleRate ab)\<rfloor>"
    by (rule floor_mono)
  then have "ef \<le> sf" by (simp add: ef_def sf_def)
  then show ?thesis
    using sliceBuffer_unfold [of ab startSec endSec, folded sf_def ef_def] by simp
qed

text \<open>
  What \<open>sliceBuffer\<close> returns for a range of at least one frame: a buffer of
  \<open>endFrame - startFrame\<close> frames, the frame indices being \<open>floor(sec * sampleRate)\<close>
  clamped to the buffer, with the sample rate and the channel count of the source and,
  channel by channel, the samples from \<open>startFrame\<close> on.
\<close>

lemma sliceBuffer_nonempty:
  assumes "wfBuffer ab" and "1 \<le> numberOfChannels ab"
    and "specFrameIndex ab startSec < specFrameIndex ab endSec"
  shows "\<exists>out. sliceBuffer ab startSec endSec = Inr out
    \<and> ab_length out = nat (specFrameIndex ab endSec - specFrameIndex ab startSec)
    \<and> numberOfChannels out = numberOfChannels ab
    \<and> ab_sampleRate out = ab_sampleRate ab
    \<and> wfBuffer out
    \<and> (\<forall>ch<numberOfChannels ab.
          ab_channels out ! ch
          = take (ab_length out)
                 (drop (nat (specFrameIndex ab startSec)) (ab_channels ab ! ch)))"
proof -
  let ?n = "ab_length ab"
  define fs where "fs = \<lfloor>startSec * real (ab_sampleRate ab)\<rfloor>"
  define fe where "fe = \<lfloor>endSec * real (ab_sampleRate ab)\<rfloor>"
  define sf where "sf = max 0 fs"
  define ef where "ef = min fe (int ?n)"
  have spec_s: "specFrameIndex ab startSec = max 0 (min (int ?n) fs)"
    and spec_e: "specFrameIndex ab endSec = max 0 (min (int ?n) fe)"
    by (simp_all add: specFrameIndex_def fs_def fe_def)
  have lt: "sf < ef" and s_eq: "specFrameIndex ab startSec = sf"
    and e_eq: "specFrameIndex ab endSec = ef"
    using assms(3) unfolding spec_s spec_e sf_def ef_def by linarith+
  from sliceBuffer_channels [OF assms(1), of startSec endSec, folded fs_def fe_def,
      folded sf_def ef_def, OF lt assms(2)]
  obtain out where out: "sliceBuffer ab startSec endSec = Inr out"
    and len: "ab_length out = nat (ef - sf)"
    and rate: "ab_sampleRate out = ab_sampleRate ab"
    and nch: "numberOfChannels out = numberOfChannels ab"
    and chans: "\<forall>ch<numberOfChannels ab.
           ab_channels out ! ch = take (nat (ef - sf)) (drop (nat sf) (ab_channels ab ! ch))"
    by blast
  have wf: "wfBuffer out"
    unfolding wfBuffer_def
  proof
    fix d assume "d \<in> set (ab_channels out)"
    then obtain c where c: "c < length (ab_channels out)" and d: "d = ab_channels out ! c"
      by (auto simp: in_set_conv_nth)
    from c nch have c': "c < numberOfChannels ab" by (simp add: numberOfChannels_def)
    then have "ab_channels ab ! c \<in> set (ab_channels ab)"
      by (simp add: numberOfChannels_def)
    with assms(1) have ld: "length (ab_channels ab ! c) = ?n" by (simp add: wfBuffer_def)
    from chans c' d have d': "d = take (nat (ef - sf)) (drop (nat sf) (ab_channels ab ! c))"
      by simp
    have "sf \<ge> 0" "ef \<le> int ?n" by (simp_all add: sf_def ef_def)
    then have "nat (ef - sf) \<le> ?n - nat sf" by linarith
    with d' ld have "length d = nat (ef - sf)" by simp
    with len show "length d = ab_length out" by simp
  qed
  show ?thesis
    using out len rate nch wf chans unfolding s_eq e_eq by (intro exI [of _ out]) simp
qed

lemma sliceBuffer_example:
  assumes "wfBuffer ab" and "1 \<le> numberOfChannels ab"
    and "ab_sampleRate ab = 44100" and "ab_length ab = 441000"
  shows "\<exists>out. sliceBuffer ab 2 3 = Inr out \<and> ab_length out = 44100"
proof -
  have s: "specFrameIndex ab 2 = 88200" and e: "specFrameIndex ab 3 = 132300"
    using assms(3,4) by (simp_all add: specFrameIndex_def)
  then have "specFrameIndex ab 2 < specFrameIndex ab 3" by simp
  from sliceBuffer_nonempty [OF assms(1,2) this] show ?thesis
    unfolding s e by auto
qed

text \<open>
  C3. A range of no frame: \<open>sliceBuffer\<close> asks the audio context for a buffer of length
  zero, which the context refuses, so the call raises where the specification has it
  return an empty buffer.
\<close>

theorem sliceBuffer_empty_range_raises:
  "sliceBuffer \<lparr>ab_sampleRate = 44100, ab_length = 441000,
                ab_channels = [replicate 441000 0]\<rparr> 2 2 = Inl NotSupportedError"
proof -
  let ?ab = "\<lparr>ab_sampleRate = 44100, ab_length = 441000,
              ab_channels = [replicate 441000 (0::real)]\<rparr>"
  have startFrame: "max 0 \<lfloor>2 * real (ab_sampleRate ?ab)\<rfloor> = 88200" by simp
  have endFrame: "min \<lfloor>2 * real (ab_sampleRate ?ab)\<rfloor> (int (ab_length ?ab)) = 88200"
    by simp
  have frames: "nat (max 0 (88200 - 88200 :: int)) = 0" by simp
  have refused: "createBuffer (numberOfChannels ?ab) 0 (ab_sampleRate ?ab) = Inl NotSupportedError"
    by (simp add: createBuffer_def)
  show ?thesis
    unfolding sliceBuffer_def Let_def startFrame endFrame frames refused
    by (simp add: bindE_def)
qed

section \<open>Updating a segment\<close>

lemma resolveDuration_pos:
  assumes "\<forall>w. wsDur = Some w \<longrightarrow> 0 \<le> w" and "0 \<le> d"
  shows "resolveDuration wsDur d = Finite x \<Longrightarrow> 0 < x"
  using assms by (auto simp: resolveDuration_def split: option.splits if_splits)

lemma applyPatch_bounds:
  assumes "\<forall>d. dr = Finite d \<longrightarrow> 0 < d"
  shows "MIN_LEN \<le> r_maxLen (applyPatch dr p r)"
    and "r_maxLen (applyPatch dr p r) \<le> MAX_LEN"
    and "r_end (applyPatch dr p r) \<le> r_start (applyPatch dr p r) + r_maxLen (applyPatch dr p r)"
    and "\<forall>d. dr = Finite d \<longrightarrow> r_end (applyPatch dr p r) \<le> d"
    and "0 \<le> (case p_start p of Some v \<Rightarrow> v | None \<Rightarrow> r_start r)
         \<longrightarrow> 0 \<le> r_start (applyPatch dr p r)"
proof -
  show "MIN_LEN \<le> r_maxLen (applyPatch dr p r)"
    using assms
    by (cases dr) (auto simp: applyPatch_def Let_def MIN_LEN_def MAX_LEN_def)
  show "r_maxLen (applyPatch dr p r) \<le> MAX_LEN"
    by (cases dr) (auto simp: applyPatch_def Let_def MIN_LEN_def MAX_LEN_def)
  show "r_end (applyPatch dr p r) \<le> r_start (applyPatch dr p r) + r_maxLen (applyPatch dr p r)"
    by (cases dr) (simp_all add: applyPatch_def Let_def)
  show "\<forall>d. dr = Finite d \<longrightarrow> r_end (applyPatch dr p r) \<le> d"
    by (cases dr) (simp_all add: applyPatch_def Let_def)
  show "0 \<le> (case p_start p of Some v \<Rightarrow> v | None \<Rightarrow> r_start r)
         \<longrightarrow> 0 \<le> r_start (applyPatch dr p r)"
    by (cases dr) (auto simp: applyPatch_def Let_def)
qed

lemma updateRow_rows:
  "rows (updateRow rid p s)
   = map (\<lambda>r. if r_id r \<noteq> rid then r
               else applyPatch (resolveDuration (map_option ws_duration (player s)) (duration s)) p r)
         (rows s)"
  by (simp add: updateRow_def Let_def split: option.splits)

text \<open>
  C2 (as amended). With durations that are not negative, the row that \<open>updateRow\<close>
  patches has \<open>0.5 \<le> maxLen \<le> 5\<close> and \<open>end \<le> start + maxLen\<close>, has \<open>end\<close> at most
  the duration when that is known, and has \<open>start \<ge> 0\<close> when the start that was asked
  for, the one of the patch or else the one of the row, is not negative.
\<close>

theorem updateRow_bounds:
  assumes "\<forall>pl. player s = Some pl \<longrightarrow> 0 \<le> ws_duration pl"
    and "0 \<le> duration s"
    and "i < length (rows s)"
    and "r_id (rows s ! i) = rid"
  shows "1 / 2 \<le> r_maxLen (rows (updateRow rid p s) ! i)
    \<and> r_maxLen (rows (updateRow rid p s) ! i) \<le> 5
    \<and> r_end (rows (updateRow rid p s) ! i)
        \<le> r_start (rows (updateRow rid p s) ! i) + r_maxLen (rows (updateRow rid p s) ! i)
    \<and> (\<forall>d. resolveDuration (map_option ws_duration (player s)) (duration s) = Finite d
          \<longrightarrow> r_end (rows (updateRow rid p s) ! i) \<le> d)
    \<and> (0 \<le> (case p_start p of Some v \<Rightarrow> v | None \<Rightarrow> r_start (rows s ! i))
          \<longrightarrow> 0 \<le> r_start (rows (updateRow rid p s) ! i))"
proof -
  let ?dr = "resolveDuration (map_option ws_duration (player s)) (duration s)"
  have pos: "\<forall>d. ?dr = Finite d \<longrightarrow> 0 < d"
  proof (intro allI impI)
    fix d assume "?dr = Finite d"
    moreover have "\<forall>w. map_option ws_duration (player s) = Some w \<longrightarrow> 0 \<le> w"
      using assms(1) by auto
    ultimately show "0 < d" using assms(2) by (rule resolveDuration_pos [rotated 2])
  qed
  have row: "rows (updateRow rid p s) ! i = applyPatch ?dr p (rows s ! i)"
    using assms(3,4) by (simp add: updateRow_rows)
  show ?thesis
    unfolding row
    using applyPatch_bounds [OF pos, where p = p and r = "rows s ! i"]
    by (simp add: MIN_LEN_def MAX_LEN_def)
qed

theorem updateRow_bounds_witness:
  "r_maxLen (rows (updateRow (ascii ''a'')
       \<lparr>p_label = None, p_maxLen = Some 9, p_start = Some 8, p_end = None\<rparr>
       ((initialState Map.empty)
          \<lparr>player := Some \<lparr>ws_duration = 10, ws_regions = []\<rparr>, duration := 10,
           rows := [\<lparr>r_id = ascii ''a'', r_label = [], r_maxLen = 1, r_start = 0,
                     r_end = 1, r_color = ascii ''#22c55e55''\<rparr>]\<rparr>)) ! 0) \<le> 5
   \<and> rows (updateRow (ascii ''a'')
       \<lparr>p_label = None, p_maxLen = Some 9, p_start = Some 8, p_end = None\<rparr>
       ((initialState Map.empty)
          \<lparr>player := Some \<lparr>ws_duration = 10, ws_regions = []\<rparr>, duration := 10,
           rows := [\<lparr>r_id = ascii ''a'', r_label = [], r_maxLen = 1, r_start = 0,
                     r_end = 1, r_color = ascii ''#22c55e55''\<rparr>]\<rparr>))
     = [\<lparr>r_id = ascii ''a'', r_label = [], r_maxLen = 5, r_start = 5,
          r_end = 10, r_color = ascii ''#22c55e55''\<rparr>]"
proof -
  let ?s = "(initialState Map.empty)
          \<lparr>player := Some \<lparr>ws_duration = 10, ws_regions = []\<rparr>, duration := 10,
           rows := [\<lparr>r_id = ascii ''a'', r_label = [], r_maxLen = 1, r_start = 0,
                     r_end = 1, r_color = ascii ''#22c55e55''\<rparr>]\<rparr>"
  let ?p = "\<lparr>p_label = None, p_maxLen = Some 9, p_start = Some 8, p_end = None\<rparr>"
  have h: "\<forall>pl. player ?s = Some pl \<longrightarrow> 0 \<le> ws_duration pl" "0 \<le> duration ?s"
    "0 < length (rows ?s)" "r_id (rows ?s ! 0) = ascii ''a''"
    by simp_all
  from updateRow_bounds [OF h, of ?p]
  have "r_maxLen (rows (updateRow (ascii ''a'') ?p ?s) ! 0) \<le> 5" by blast
  moreover have "rows (updateRow (ascii ''a'') ?p ?s)
     = [\<lparr>r_id = ascii ''a'', r_label = [], r_maxLen = 5, r_start = 5,
          r_end = 10, r_color = ascii ''#22c55e55''\<rparr>]"
    by (simp add: updateRow_rows applyPatch_def resolveDuration_def Let_def
          MIN_LEN_def MAX_LEN_def)
  ultimately show ?thesis by simp
qed

text \<open>
  A patch that asks for the start \<open>-1\<close> on a 10 second file: the start is only capped
  from above, so the row starts at \<open>-1\<close>.
\<close>

theorem updateRow_start_counterexample:
  "r_start (rows (updateRow (ascii ''a'')
       \<lparr>p_label = None, p_maxLen = None, p_start = Some (- 1), p_end = None\<rparr>
       ((initialState Map.empty)
          \<lparr>player := Some \<lparr>ws_duration = 10, ws_regions = []\<rparr>, duration := 10,
           rows := [\<lparr>r_id = ascii ''a'', r_label = [], r_maxLen = 1, r_start = 0,
                     r_end = 1, r_color = ascii ''#22c55e55''\<rparr>]\<rparr>)) ! 0) = - 1"
  by (simp add: updateRow_rows applyPatch_def resolveDuration_def Let_def
        MIN_LEN_def MAX_LEN_def)

section \<open>The cap on segments\<close>

lemma saveRowsLS_simps:
  "rows (saveRowsLS key rs s) = rows s"
  "fileRows (saveRowsLS key rs s) = fileRows s"
  by (simp_all add: saveRowsLS_def)

lemma capped_persistCurrent: "capped s \<Longrightarrow> capped (persistCurrent s)"
  by (auto simp: capped_def persistCurrent_def saveRowsLS_simps Let_def split: option.splits)

lemma capped_clearAllRegions: "capped s \<Longrightarrow> capped (clearAllRegions s)"
  by (auto simp: capped_def clearAllRegions_def split: option.splits)

lemma fold_addRegion_simps:
  "rows (fold (\<lambda>r. addRegion (g r)) xs s) = rows s"
  "fileRows (fold (\<lambda>r. addRegion (g r)) xs s) = fileRows s"
  by (induction xs arbitrary: s) (simp_all add: addRegion_def split: option.splits)

lemma renderRowsToRegions_rows:
  "rows (renderRowsToRegions rowsToDraw s)
   = (if player s = None then rows s
      else take MAX_REGIONS (ensureUniqueColors rowsToDraw))"
  by (simp add: renderRowsToRegions_def Let_def split: option.splits)

lemma renderRowsToRegions_fileRows:
  "fileRows (renderRowsToRegions rowsToDraw s) = fileRows s"
  by (simp add: renderRowsToRegions_def Let_def fold_addRegion_simps clearAllRegions_def
        split: option.splits)

lemma capped_render: "capped s \<Longrightarrow> capped (renderRowsToRegions rowsToDraw s)"
  by (simp add: capped_def renderRowsToRegions_rows renderRowsToRegions_fileRows)

lemma capped_ready: "capped s \<Longrightarrow> capped (ready d newId s)"
proof -
  assume c: "capped s"
  have upd: "\<And>f g. capped (s\<lparr>player := f, duration := g\<rparr>)"
    using c by (simp add: capped_def)
  have r: "\<And>s' xs. capped s' \<Longrightarrow> capped (renderRowsToRegions xs s')"
    by (rule capped_render)
  have a: "\<And>s' b. capped s' \<Longrightarrow> capped (s'\<lparr>pendingRows := None, isRestoring := b\<rparr>)"
    by (simp add: capped_def)
  have b: "\<And>s' b. capped s' \<Longrightarrow> capped (s'\<lparr>seedOnReady := False, isRestoring := b\<rparr>)"
    by (simp add: capped_def)
  show ?thesis
    unfolding ready_def Let_def
    using c by (auto split: option.splits intro!: r a b upd)
qed

lemma capped_loadFile: "capped s \<Longrightarrow> capped (loadFile f decoded s)"
proof -
  assume c: "capped s"
  then have "capped (s\<lparr>isRestoring := True\<rparr>)" by (simp add: capped_def)
  then have "capped (clearAllRegions (s\<lparr>isRestoring := True\<rparr>))"
    by (rule capped_clearAllRegions)
  then show ?thesis
    unfolding loadFile_def Let_def
    by (auto simp: capped_def split: option.splits)
qed

lemma capped_addRow: "capped s \<Longrightarrow> capped (addRow newId s)"
  by (auto simp: capped_def addRow_def addRegion_def Let_def MAX_REGIONS_def
      split: option.splits)

lemma capped_updateRow: "capped s \<Longrightarrow> capped (updateRow rid p s)"
  by (auto simp: capped_def updateRow_def Let_def split: option.splits)

lemma capped_removeRow: "capped s \<Longrightarrow> capped (removeRow rid s)"
  by (auto simp: capped_def removeRow_def Let_def split: option.splits
      intro: order_trans [OF length_filter_le])

lemma capped_regionUpdated: "capped s \<Longrightarrow> capped (regionUpdated rid ds de s)"
  by (auto simp: capped_def regionUpdated_def Let_def split: option.splits)

lemma saveRow_simps:
  "rows (saveRow r s) = rows s" "fileRows (saveRow r s) = fileRows s"
  by (simp_all add: saveRow_def Let_def split: option.splits sum.splits)

lemma capped_saveRow: "capped s \<Longrightarrow> capped (saveRow r s)"
  by (simp add: capped_def saveRow_simps)

lemma capped_fold_saveRow: "capped s \<Longrightarrow> capped (fold saveRow rs s)"
  by (induction rs arbitrary: s) (simp_all add: capped_saveRow)

lemma capped_completeAndNext: "capped s \<Longrightarrow> capped (completeAndNext s)"
proof -
  assume c: "capped s"
  have k: "\<And>s'. rows s' = rows s \<Longrightarrow>
      (\<forall>key rs. fileRows s' key = Some rs \<longrightarrow> fileRows s key = Some rs) \<Longrightarrow> capped s'"
    using c by (auto simp: capped_def)
  show ?thesis
    unfolding completeAndNext_def Let_def
    by (auto intro!: capped_clearAllRegions k simp: deleteRowsLS_def split: if_splits)
qed

lemma capped_step: "capped s \<Longrightarrow> capped (step e s)"
proof (cases e)
  case Mount
  assume "capped s" then show ?thesis using Mount by (simp add: capped_def mount_def)
next
  case Destroy
  assume "capped s" then show ?thesis using Destroy by (simp add: capped_def destroy_def)
next
  case AnimationFrame
  assume "capped s" then show ?thesis
    using AnimationFrame by (simp add: capped_def animationFrame_def)
next
  case PersistEffect
  assume "capped s" then show ?thesis
    using PersistEffect by (simp add: persistEffect_def capped_persistCurrent)
next
  case BeforeUnload
  assume "capped s" then show ?thesis using BeforeUnload by (simp add: capped_persistCurrent)
next
  case (LoadEffect decoded)
  assume "capped s" then show ?thesis
    using LoadEffect by (simp add: loadEffect_def capped_loadFile split: option.splits)
next
  case (Ready d newId)
  assume "capped s" then show ?thesis using Ready by (simp add: capped_ready)
next
  case (PickFiles chosen)
  assume "capped s" then show ?thesis
    using PickFiles by (simp add: capped_def onPickFiles_def Let_def)
next
  case (AddRow newId)
  assume "capped s" then show ?thesis using AddRow by (simp add: capped_addRow)
next
  case (UpdateRow rid p)
  assume "capped s" then show ?thesis using UpdateRow by (simp add: capped_updateRow)
next
  case (RemoveRow rid)
  assume "capped s" then show ?thesis using RemoveRow by (simp add: capped_removeRow)
next
  case (RegionUpdated rid ds de)
  assume "capped s" then show ?thesis using RegionUpdated by (simp add: capped_regionUpdated)
next
  case (SaveRow r)
  assume "capped s" then show ?thesis using SaveRow by (simp add: capped_saveRow)
next
  case SaveAll
  assume "capped s" then show ?thesis
    using SaveAll by (simp add: saveAll_def capped_fold_saveRow)
next
  case NextFile
  assume "capped s"
  then have "capped (persistCurrent s)" by (rule capped_persistCurrent)
  then show ?thesis using NextFile \<open>capped s\<close> by (simp add: nextFile_def capped_def)
next
  case (SelectFile i)
  assume "capped s"
  then have "capped (persistCurrent s)" by (rule capped_persistCurrent)
  then show ?thesis using SelectFile by (simp add: selectFile_def capped_def)
next
  case CompleteAndNext
  assume "capped s" then show ?thesis
    using CompleteAndNext by (simp add: capped_completeAndNext)
next
  case (StorageFull b)
  assume "capped s" then show ?thesis using StorageFull by (simp add: capped_def)
qed

lemma reachable_capped: "reachable s \<Longrightarrow> capped s"
proof (induction rule: reachable.induct)
  case (reach_init ls)
  show ?case by (simp add: capped_def initialState_def)
next
  case (reach_step s e)
  then show ?case by (simp add: capped_step)
qed

text \<open>
  C4. In every reachable state the segment list has at most seven segments, and so has
  every list of the in-memory cache; \<open>addRow\<close> does not grow a list of at most seven
  beyond seven, and \<open>renderRowsToRegions\<close> leaves the first seven of the rows it is
  given.
\<close>

theorem segment_cap:
  "(reachable s \<longrightarrow>
      length (rows s) \<le> 7 \<and> (\<forall>key rs. fileRows s key = Some rs \<longrightarrow> length rs \<le> 7))
   \<and> (length (rows s) \<le> 7 \<longrightarrow> length (rows (addRow newId s)) \<le> 7)
   \<and> (length (rows s) \<le> 7 \<longrightarrow> length (rows (renderRowsToRegions rowsToDraw s)) \<le> 7)
   \<and> (player s \<noteq> None \<longrightarrow>
        rows (renderRowsToRegions rowsToDraw s) = take 7 (ensureUniqueColors rowsToDraw))"
proof (intro conjI impI)
  assume "reachable s"
  then have "capped s" by (rule reachable_capped)
  then show "length (rows s) \<le> 7"
    and "\<forall>key rs. fileRows s key = Some rs \<longrightarrow> length rs \<le> 7"
    by (simp_all add: capped_def MAX_REGIONS_def)
next
  assume "length (rows s) \<le> 7"
  then show "length (rows (addRow newId s)) \<le> 7"
    by (auto simp: addRow_def addRegion_def Let_def MAX_REGIONS_def split: option.splits)
next
  assume "length (rows s) \<le> 7"
  then show "length (rows (renderRowsToRegions rowsToDraw s)) \<le> 7"
    by (simp add: renderRowsToRegions_rows MAX_REGIONS_def)
next
  assume "player s \<noteq> None"
  then show "rows (renderRowsToRegions rowsToDraw s) = take 7 (ensureUniqueColors rowsToDraw)"
    by (auto simp: renderRowsToRegions_rows MAX_REGIONS_def)
qed

theorem segment_cap_witness:
  "reachable (step (AddRow (ascii ''b''))
     (step (Ready 3 (ascii ''a''))
       (step (LoadEffect None)
         (step (PickFiles [\<lparr>f_webkitRelativePath = [], f_name = ascii ''one.wav'',
                            f_size = 1024, f_lastModified = 1700000000000\<rparr>])
           (step Mount (initialState Map.empty))))))
   \<and> length (rows (step (AddRow (ascii ''b''))
     (step (Ready 3 (ascii ''a''))
       (step (LoadEffect None)
         (step (PickFiles [\<lparr>f_webkitRelativePath = [], f_name = ascii ''one.wav'',
                            f_size = 1024, f_lastModified = 1700000000000\<rparr>])
           (step Mount (initialState Map.empty))))))) \<le> 7"
proof -
  let ?s = "step (AddRow (ascii ''b''))
     (step (Ready 3 (ascii ''a''))
       (step (LoadEffect None)
         (step (PickFiles [\<lparr>f_webkitRelativePath = [], f_name = ascii ''one.wav'',
                            f_size = 1024, f_lastModified = 1700000000000\<rparr>])
           (step Mount (initialState Map.empty)))))"
  have r: "reachable ?s" by (intro reachable.intros)
  with segment_cap [of ?s] show ?thesis by blast
qed

text \<open>
  C5. With seven segments \<open>addRow\<close> changes nothing but the alerts: the rows and the
  regions stay as they are, and when the control is enabled (a player, a current file
  and a positive duration) the notice is shown.
\<close>

theorem addRow_at_cap:
  assumes "length (rows s) = 7"
  shows "rows (addRow newId s) = rows s
    \<and> length (rows (addRow newId s)) = 7
    \<and> player (addRow newId s) = player s
    \<and> addRow newId s = s\<lparr>alerts := alerts (addRow newId s)\<rparr>
    \<and> (player s \<noteq> None \<and> canAddRegion s \<longrightarrow>
         alerts (addRow newId s) = alerts s @ [MaxRegionsNotice])"
  using assms by (auto simp: addRow_def MAX_REGIONS_def split: option.splits)

theorem addRow_at_cap_witness:
  "length (rows ((initialState Map.empty)
      \<lparr>files := [\<lparr>f_webkitRelativePath = [], f_name = ascii ''one.wav'',
                  f_size = 1024, f_lastModified = 1700000000000\<rparr>],
       duration := 3,
       rows := map (\<lambda>c. \<lparr>r_id = c, r_label = [], r_maxLen = 1, r_start = 0, r_end = 1,
                            r_color = c\<rparr>) COLORS,
       player := Some \<lparr>ws_duration = 3, ws_regions = []\<rparr>\<rparr>)) = 7
   \<and> alerts (addRow (ascii ''h'') ((initialState Map.empty)
      \<lparr>files := [\<lparr>f_webkitRelativePath = [], f_name = ascii ''one.wav'',
                  f_size = 1024, f_lastModified = 1700000000000\<rparr>],
       duration := 3,
       rows := map (\<lambda>c. \<lparr>r_id = c, r_label = [], r_maxLen = 1, r_start = 0, r_end = 1,
                            r_color = c\<rparr>) COLORS,
       player := Some \<lparr>ws_duration = 3, ws_regions = []\<rparr>\<rparr>)) = [MaxRegionsNotice]"
proof -
  let ?s = "(initialState Map.empty)
      \<lparr>files := [\<lparr>f_webkitRelativePath = [], f_name = ascii ''one.wav'',
                  f_size = 1024, f_lastModified = 1700000000000\<rparr>],
       duration := 3,
       rows := map (\<lambda>c. \<lparr>r_id = c, r_label = [], r_maxLen = 1, r_start = 0, r_end = 1,
                            r_color = c\<rparr>) COLORS,
       player := Some \<lparr>ws_duration = 3, ws_regions = []\<rparr>\<rparr>"
  have len: "length (rows ?s) = 7" by (simp add: COLORS_length)
  have en: "player ?s \<noteq> None \<and> canAddRegion ?s"
    by (simp add: canAddRegion_def currentFile_def initialState_def)
  have "alerts ?s = []" by (simp add: initialState_def)
  with addRow_at_cap [OF len, of "ascii ''h''"] en len show ?thesis by simp
qed

section \<open>The cache\<close>

text \<open>
  C6. After \<open>persistCurrent\<close>, loading the same file restores the segment list that was
  persisted, whatever else the cache and the storage hold; an empty list comes back
  as nothing to restore, and the default segment is seeded. Entries of other keys are
  left as they were.
\<close>

theorem persist_then_restore:
  assumes "currentFile s = Some f"
  shows "(case pendingRows (loadFile f decoded (persistCurrent s)) of
            None \<Rightarrow> [] | Some rs \<Rightarrow> rs) = rows s
    \<and> seedOnReady (loadFile f decoded (persistCurrent s)) = (rows s = [])
    \<and> fileRows (persistCurrent s) (fileKey (Some f)) = Some (rows s)
    \<and> (\<forall>key. key \<noteq> fileKey (Some f) \<longrightarrow> fileRows (persistCurrent s) key = fileRows s key)"
  using assms
  by (auto simp: persistCurrent_def loadFile_def saveRowsLS_def clearAllRegions_def
        loadRowsLS_def Let_def split: option.splits)

theorem persist_then_restore_witness:
  "currentFile ((initialState Map.empty)
      \<lparr>files := [\<lparr>f_webkitRelativePath = [], f_name = ascii ''one.wav'',
                  f_size = 1024, f_lastModified = 1700000000000\<rparr>],
       rows := [\<lparr>r_id = ascii ''a'', r_label = ascii ''help'', r_maxLen = 2, r_start = 1,
                 r_end = 3, r_color = ascii ''#22c55e55''\<rparr>]\<rparr>)
     = Some \<lparr>f_webkitRelativePath = [], f_name = ascii ''one.wav'',
             f_size = 1024, f_lastModified = 1700000000000\<rparr>
   \<and> pendingRows (loadFile \<lparr>f_webkitRelativePath = [], f_name = ascii ''one.wav'',
                             f_size = 1024, f_lastModified = 1700000000000\<rparr> None
        (persistCurrent ((initialState Map.empty)
      \<lparr>files := [\<lparr>f_webkitRelativePath = [], f_name = ascii ''one.wav'',
                  f_size = 1024, f_lastModified = 1700000000000\<rparr>],
       rows := [\<lparr>r_id = ascii ''a'', r_label = ascii ''help'', r_maxLen = 2, r_start = 1,
                 r_end = 3, r_color = ascii ''#22c55e55''\<rparr>]\<rparr>)))
     = Some [\<lparr>r_id = ascii ''a'', r_label = ascii ''help'', r_maxLen = 2, r_start = 1,
               r_end = 3, r_color = ascii ''#22c55e55''\<rparr>]"
proof -
  let ?f = "\<lparr>f_webkitRelativePath = [], f_name = ascii ''one.wav'',
             f_size = 1024, f_lastModified = 1700000000000\<rparr>"
  let ?r = "\<lparr>r_id = ascii ''a'', r_label = ascii ''help'', r_maxLen = 2, r_start = 1,
               r_end = 3, r_color = ascii ''#22c55e55''\<rparr>"
  let ?s = "(initialState Map.empty)\<lparr>files := [?f], rows := [?r]\<rparr>"
  have cur: "currentFile ?s = Some ?f"
    by (simp add: currentFile_def initialState_def)
  from persist_then_restore [OF cur, of None]
  have "(case pendingRows (loadFile ?f None (persistCurrent ?s)) of
            None \<Rightarrow> [] | Some rs \<Rightarrow> rs) = [?r]"
    by simp
  then have "pendingRows (loadFile ?f None (persistCurrent ?s)) = Some [?r]"
    by (cases "pendingRows (loadFile ?f None (persistCurrent ?s))") simp_all
  with cur show ?thesis by simp
qed

text \<open>
  C7. \<open>completeAndNext\<close> removes the entry of the current file from the in-memory
  cache and from the storage; loading that file afterwards finds nothing to restore
  and asks for the default segment.
\<close>

theorem complete_then_restore:
  assumes "currentFile s = Some f"
  shows "fileRows (completeAndNext s) (fileKey (Some f)) = None
    \<and> localStorage (completeAndNext s) (LS_PREFIX @ fileKey (Some f)) = None
    \<and> pendingRows (loadFile f decoded (completeAndNext s)) = None
    \<and> seedOnReady (loadFile f decoded (completeAndNext s))"
proof -
  from assms have ne: "files s \<noteq> []"
    by (auto simp: currentFile_def split: if_splits)
  have a: "fileRows (completeAndNext s) (fileKey (Some f)) = None"
    and b: "localStorage (completeAndNext s) (LS_PREFIX @ fileKey (Some f)) = None"
    using assms ne
    by (auto simp: completeAndNext_def deleteRowsLS_def clearAllRegions_def Let_def
          split: option.splits)
  have c: "\<And>t. fileRows t (fileKey (Some f)) = None \<Longrightarrow>
      localStorage t (LS_PREFIX @ fileKey (Some f)) = None \<Longrightarrow>
      pendingRows (loadFile f decoded t) = None \<and> seedOnReady (loadFile f decoded t)"
    by (auto simp: loadFile_def clearAllRegions_def loadRowsLS_def Let_def
          split: option.splits)
  from a b c [OF a b] show ?thesis by simp
qed

theorem complete_then_restore_witness:
  "currentFile ((initialState
        [LS_PREFIX @ fileKey (Some \<lparr>f_webkitRelativePath = [], f_name = ascii ''one.wav'',
                  f_size = 1024, f_lastModified = 1700000000000\<rparr>)
         \<mapsto> [\<lparr>r_id = ascii ''a'', r_label = ascii ''help'', r_maxLen = 2, r_start = 1,
                 r_end = 3, r_color = ascii ''#22c55e55''\<rparr>]])
      \<lparr>files := [\<lparr>f_webkitRelativePath = [], f_name = ascii ''one.wav'',
                  f_size = 1024, f_lastModified = 1700000000000\<rparr>]\<rparr>)
     = Some \<lparr>f_webkitRelativePath = [], f_name = ascii ''one.wav'',
             f_size = 1024, f_lastModified = 1700000000000\<rparr>
   \<and> pendingRows (loadFile \<lparr>f_webkitRelativePath = [], f_name = ascii ''one.wav'',
                             f_size = 1024, f_lastModified = 1700000000000\<rparr> None
        (completeAndNext ((initialState
        [LS_PREFIX @ fileKey (Some \<lparr>f_webkitRelativePath = [], f_name = ascii ''one.wav'',
                  f_size = 1024, f_lastModified = 1700000000000\<rparr>)
         \<mapsto> [\<lparr>r_id = ascii ''a'', r_label = ascii ''help'', r_maxLen = 2, r_start = 1,
                 r_end = 3, r_color = ascii ''#22c55e55''\<rparr>]])
      \<lparr>files := [\<lparr>f_webkitRelativePath = [], f_name = ascii ''one.wav'',
                  f_size = 1024, f_lastModified = 1700000000000\<rparr>]\<rparr>))) = None"
proof -
  let ?f = "\<lparr>f_webkitRelativePath = [], f_name = ascii ''one.wav'',
             f_size = 1024, f_lastModified = 1700000000000\<rparr>"
  let ?r = "\<lparr>r_id = ascii ''a'', r_label = ascii ''help'', r_maxLen = 2, r_start = 1,
               r_end = 3, r_color = ascii ''#22c55e55''\<rparr>"
  let ?s = "(initialState [LS_PREFIX @ fileKey (Some ?f) \<mapsto> [?r]])\<lparr>files := [?f]\<rparr>"
  have cur: "currentFile ?s = Some ?f"
    by (simp add: currentFile_def initialState_def)
  from complete_then_restore [OF cur, of None] cur show ?thesis by blast
qed

section \<open>File names of exports\<close>

lemma replaceWhiteSpace_no_space:
  "(\<forall>x\<in>set xs. \<not> isWhiteSpace x) \<Longrightarrow> replaceWhiteSpace (xs @ ys) = xs @ replaceWhiteSpace ys"
  by (induction xs) simp_all

lemma replaceWhiteSpace_runs: "replaceWhiteSpace lbl = specSanitizedLabel lbl"
proof (induction "isWhiteSpace" lbl rule: runs.induct)
  case 1
  show ?case by (simp add: specSanitizedLabel_def)
next
  case (2 c cs)
  let ?same = "\<lambda>x. isWhiteSpace x = isWhiteSpace c"
  have IH: "replaceWhiteSpace (dropWhile ?same cs) = specSanitizedLabel (dropWhile ?same cs)"
    by (rule 2)
  show ?case
  proof (cases "isWhiteSpace c")
    case True
    then have same: "?same = isWhiteSpace" by auto
    from True IH show ?thesis
      by (simp add: specSanitizedLabel_def same ascii_def)
  next
    case False
    then have same: "?same = (\<lambda>x. \<not> isWhiteSpace x)" by auto
    have "replaceWhiteSpace cs
          = replaceWhiteSpace (takeWhile (\<lambda>x. \<not> isWhiteSpace x) cs
                               @ dropWhile (\<lambda>x. \<not> isWhiteSpace x) cs)"
      by simp
    also have "\<dots> = takeWhile (\<lambda>x. \<not> isWhiteSpace x) cs
                     @ replaceWhiteSpace (dropWhile (\<lambda>x. \<not> isWhiteSpace x) cs)"
      by (rule replaceWhiteSpace_no_space) (auto dest: set_takeWhileD)
    finally have "replaceWhiteSpace cs
          = takeWhile (\<lambda>x. \<not> isWhiteSpace x) cs
            @ replaceWhiteSpace (dropWhile (\<lambda>x. \<not> isWhiteSpace x) cs)" .
    with False IH show ?thesis
      by (simp add: specSanitizedLabel_def same)
  qed
qed

lemma underscore_no_space: "\<not> isWhiteSpace 0x5F"
  by (simp add: isWhiteSpace_def)

lemma replaceWhiteSpace_clean: "x \<in> set (replaceWhiteSpace lbl) \<Longrightarrow> \<not> isWhiteSpace x"
proof (induction lbl rule: replaceWhiteSpace.induct)
  case 1
  then show ?case by simp
next
  case (2 c cs)
  show ?case
  proof (cases "isWhiteSpace c")
    case True
    then have eq: "replaceWhiteSpace (c # cs)
        = 0x5F # replaceWhiteSpace (dropWhile isWhiteSpace cs)" by simp
    from "2.prems" have "x = 0x5F \<or> x \<in> set (replaceWhiteSpace (dropWhile isWhiteSpace cs))"
      unfolding eq by simp
    then show ?thesis
    proof
      assume "x = 0x5F"
      then show ?thesis by (simp only: underscore_no_space not_False_eq_True)
    next
      assume "x \<in> set (replaceWhiteSpace (dropWhile isWhiteSpace cs))"
      with True show ?thesis by (rule "2.IH"(1))
    qed
  next
    case False
    then have eq: "replaceWhiteSpace (c # cs) = c # replaceWhiteSpace cs" by simp
    from "2.prems" have "x = c \<or> x \<in> set (replaceWhiteSpace cs)"
      unfolding eq by simp
    then show ?thesis
    proof
      assume "x = c"
      with False show ?thesis by simp
    next
      assume "x \<in> set (replaceWhiteSpace cs)"
      with False show ?thesis by (rule "2.IH"(2))
    qed
  qed
qed

lemma audioBufferToWav_succeeds: "\<exists>blob. audioBufferToWav ab = Inr blob"
  using audioBufferToWav_bytes [of ab] by (elim exE conjE) (rule exI)

text \<open>
  C9. Every file that \<open>saveRow\<close> downloads is named by the base name of the current
  file, an underscore, the label and \<open>.wav\<close>, where the label is \<open>seg\<close> when the segment
  has none and every run of white space in it is one underscore, so that no white
  space is left in it; and a file is downloaded whenever a buffer is decoded and the
  segment covers at least one frame of it.
\<close>

theorem saveRow_file_name:
  assumes "currentFile s = Some f"
  shows "(downloads (saveRow r s) = downloads s
          \<or> (\<exists>blob. downloads (saveRow r s)
                = downloads s @
                  [(baseName (f_name f) @ ascii ''_''
                    @ specSanitizedLabel (if r_label r = [] then ascii ''seg'' else r_label r)
                    @ ascii ''.wav'', blob)]))
    \<and> (audioBuffer s = Some ab \<and> wfBuffer ab \<and> 1 \<le> numberOfChannels ab
        \<and> specFrameIndex ab (r_start r)
            < specFrameIndex ab (min (r_start r + r_maxLen r) (r_end r))
        \<longrightarrow> (\<exists>blob. downloads (saveRow r s)
                = downloads s @
                  [(baseName (f_name f) @ ascii ''_''
                    @ specSanitizedLabel (if r_label r = [] then ascii ''seg'' else r_label r)
                    @ ascii ''.wav'', blob)]))
    \<and> (\<forall>x\<in>set (specSanitizedLabel (if r_label r = [] then ascii ''seg'' else r_label r)).
          \<not> isWhiteSpace x)
    \<and> specSanitizedLabel (ascii ''seg'') = ascii ''seg''"
proof -
  let ?name = "baseName (f_name f) @ ascii ''_''
      @ specSanitizedLabel (if r_label r = [] then ascii ''seg'' else r_label r)
      @ ascii ''.wav''"
  have name: "sanitizedLabel r
      = specSanitizedLabel (if r_label r = [] then ascii ''seg'' else r_label r)"
    by (simp add: sanitizedLabel_def truthy_def replaceWhiteSpace_runs)
  have any: "downloads (saveRow r s) = downloads s
      \<or> (\<exists>blob. downloads (saveRow r s) = downloads s @ [(?name, blob)])"
    using assms by (auto simp: saveRow_def Let_def name split: option.splits sum.splits)
  have some: "audioBuffer s = Some ab \<and> wfBuffer ab \<and> 1 \<le> numberOfChannels ab
        \<and> specFrameIndex ab (r_start r)
            < specFrameIndex ab (min (r_start r + r_maxLen r) (r_end r))
        \<longrightarrow> (\<exists>blob. downloads (saveRow r s) = downloads s @ [(?name, blob)])"
  proof
    assume a: "audioBuffer s = Some ab \<and> wfBuffer ab \<and> 1 \<le> numberOfChannels ab
        \<and> specFrameIndex ab (r_start r)
            < specFrameIndex ab (min (r_start r + r_maxLen r) (r_end r))"
    then obtain sliced where
      sl: "sliceBuffer ab (r_start r) (min (r_start r + r_maxLen r) (r_end r)) = Inr sliced"
      using sliceBuffer_nonempty [of ab "r_start r" "min (r_start r + r_maxLen r) (r_end r)"]
      by blast
    from audioBufferToWav_succeeds [of sliced] obtain blob where
      blob: "audioBufferToWav sliced = Inr blob" by blast
    have "downloads (saveRow r s) = downloads s @ [(?name, blob)]"
      using assms a sl blob by (simp add: saveRow_def Let_def bindE_Inr name)
    then show "\<exists>blob. downloads (saveRow r s) = downloads s @ [(?name, blob)]" by blast
  qed
  have clean: "\<forall>x\<in>set (specSanitizedLabel (if r_label r = [] then ascii ''seg'' else r_label r)).
          \<not> isWhiteSpace x"
    by (simp only: replaceWhiteSpace_runs [symmetric]) (blast dest: replaceWhiteSpace_clean)
  have seg: "specSanitizedLabel (ascii ''seg'') = ascii ''seg''"
    by (simp add: replaceWhiteSpace_runs [symmetric] ascii_def isWhiteSpace_def)
  from any some clean seg show ?thesis by (intro conjI)
qed

theorem saveRow_file_name_witness:
  "\<exists>blob. downloads (saveRow
       \<lparr>r_id = ascii ''a'', r_label = ascii ''help  me'', r_maxLen = 1, r_start = 0,
         r_end = 1, r_color = ascii ''#22c55e55''\<rparr>
       ((initialState Map.empty)
          \<lparr>files := [\<lparr>f_webkitRelativePath = [], f_name = ascii ''take.1.wav'',
                      f_size = 1024, f_lastModified = 1700000000000\<rparr>],
           audioBuffer := Some \<lparr>ab_sampleRate = 4, ab_length = 8,
               ab_channels = [[0, 1 / 8, 1 / 4, 3 / 8, 1 / 2, 5 / 8, 3 / 4, 7 / 8]]\<rparr>\<rparr>))
     = [(ascii ''take.1_help_me.wav'', blob)]"
proof -
  let ?r = "\<lparr>r_id = ascii ''a'', r_label = ascii ''help  me'', r_maxLen = 1, r_start = 0,
         r_end = 1, r_color = ascii ''#22c55e55''\<rparr>"
  let ?f = "\<lparr>f_webkitRelativePath = [], f_name = ascii ''take.1.wav'',
                      f_size = 1024, f_lastModified = 1700000000000\<rparr>"
  let ?ab = "\<lparr>ab_sampleRate = 4, ab_length = 8,
               ab_channels = [[0, 1 / 8, 1 / 4, 3 / 8, 1 / 2, 5 / 8, 3 / 4, 7 / 8 :: real]]\<rparr>"
  let ?s = "(initialState Map.empty)\<lparr>files := [?f], audioBuffer := Some ?ab\<rparr>"
  have cur: "currentFile ?s = Some ?f"
    by (simp add: currentFile_def initialState_def)
  have h: "audioBuffer ?s = Some ?ab \<and> wfBuffer ?ab \<and> 1 \<le> numberOfChannels ?ab
        \<and> specFrameIndex ?ab (r_start ?r)
            < specFrameIndex ?ab (min (r_start ?r + r_maxLen ?r) (r_end ?r))"
    by (simp add: wfBuffer_def numberOfChannels_def specFrameIndex_def)
  have base: "baseName (f_name ?f) = ascii ''take.1''"
    by (simp add: baseName_def lastIndexOf_def ascii_def Let_def upt_rec)
  have lbl: "specSanitizedLabel (if r_label ?r = [] then ascii ''seg'' else r_label ?r)
             = ascii ''help_me''"
    by (simp add: replaceWhiteSpace_runs [symmetric] ascii_def isWhiteSpace_def)
  have d0: "downloads ?s = []" by (simp add: initialState_def)
  from saveRow_file_name [OF cur, of ?r ?ab] h obtain blob where
    "downloads (saveRow ?r ?s)
      = downloads ?s @
        [(baseName (f_name ?f) @ ascii ''_''
          @ specSanitizedLabel (if r_label ?r = [] then ascii ''seg'' else r_label ?r)
          @ ascii ''.wav'', blob)]"
    by blast
  then have "downloads (saveRow ?r ?s) = [(ascii ''take.1_help_me.wav'', blob)]"
    unfolding base lbl d0 by (simp add: ascii_def)
  then show ?thesis by blast
qed

end
